theory Spec2Isabelle
  imports Complex_Main
begin

section \<open>Configuration and helper functions (gui\_demo.py)\<close>

text \<open>
  Positions are pairs of Python integers. Python floats (timers, speeds, time stamps) are
  idealised as real numbers; the time step \<open>dt\<close> is a parameter wherever the source has
  it (the simulation loop passes the simulation speed, between 0.2 and 3.0).
\<close>

type_synonym pos = "int \<times> int"

datatype cell = CELL_SIGNAL | CELL_ROAD | CELL_BLOCK | CELL_HEAVY

datatype error = IndexError | KeyError

definition GRID_W :: int where
  "GRID_W = 12"

definition GRID_H :: int where
  "GRID_H = 8"

definition AI_DECISION_LATENCY :: real where
  "AI_DECISION_LATENCY = 0.25"

definition PREDICTION_HORIZON :: real where
  "PREDICTION_HORIZON = 30"

definition within_grid :: "int \<Rightarrow> int \<Rightarrow> bool" where
  "within_grid x y \<longleftrightarrow> 0 \<le> x \<and> x < GRID_W \<and> 0 \<le> y \<and> y < GRID_H"

text \<open>The generator \<open>neighbors\<close> yields the cells in the order of its offset tuple.\<close>

definition neighbors :: "pos \<Rightarrow> pos list" where
  "neighbors c =
     filter (\<lambda>(nx, ny). within_grid nx ny)
       (map (\<lambda>(dx, dy). (fst c + dx, snd c + dy)) [(1, 0), (- 1, 0), (0, 1), (0, - 1)])"

definition manhattan :: "pos \<Rightarrow> pos \<Rightarrow> int" where
  "manhattan a b = \<bar>fst a - fst b\<bar> + \<bar>snd a - snd b\<bar>"

text \<open>\<open>d.get(k, default)\<close> on a dictionary, and the read \<open>d[k]\<close> of a \<open>defaultdict\<close>.\<close>

definition dict_get :: "('k \<rightharpoonup> 'v) \<Rightarrow> 'k \<Rightarrow> 'v \<Rightarrow> 'v" where
  "dict_get m k d = (case m k of None \<Rightarrow> d | Some v \<Rightarrow> v)"

text \<open>
  \<open>random.randint(lo, hi)\<close>: the value the generator returns is determined by its
  entropy \<open>e\<close> and lies in \<open>[lo, hi]\<close>.
\<close>

definition randint :: "int \<Rightarrow> int \<Rightarrow> nat \<Rightarrow> int" where
  "randint lo hi e = lo + int (e mod nat (hi - lo + 1))"

section \<open>Signal\<close>

datatype phase = GREEN | RED

text \<open>The attached \<open>Sensor\<close> only reads the grid and is left out of the record.\<close>

record Signal =
  sig_pos :: pos
  state :: phase
  timer :: real
  green_duration :: real
  red_duration :: real
  override :: bool

definition Signal_init :: "pos \<Rightarrow> Signal" where
  "Signal_init p =
     \<lparr>sig_pos = p, state = RED, timer = 0, green_duration = 6, red_duration = 6,
      override = False\<rparr>"

definition step_timer :: "Signal \<Rightarrow> real \<Rightarrow> Signal" where
  "step_timer s dt =
     (if override s then s
      else let s1 = s\<lparr>timer := timer s + dt\<rparr> in
        if state s1 = GREEN \<and> timer s1 \<ge> green_duration s1 then s1\<lparr>state := RED, timer := 0\<rparr>
        else if state s1 = RED \<and> timer s1 \<ge> red_duration s1 then s1\<lparr>state := GREEN, timer := 0\<rparr>
        else s1)"

definition set_green :: "Signal \<Rightarrow> Signal" where
  "set_green s = s\<lparr>state := GREEN, timer := 0, override := True\<rparr>"

definition set_red :: "Signal \<Rightarrow> Signal" where
  "set_red s = s\<lparr>state := RED, timer := 0, override := True\<rparr>"

definition clear_override :: "Signal \<Rightarrow> Signal" where
  "clear_override s = s\<lparr>override := False, timer := 0\<rparr>"

section \<open>GridState\<close>

text \<open>
  The layout dictionary is an association list in insertion order (the loops over
  \<open>layout.items()\<close> visit it in that order); \<open>queues\<close> is a \<open>defaultdict(int)\<close>.
\<close>

record GridState =
  layout :: "(pos \<times> cell) list"
  queues :: "pos \<rightharpoonup> int"
  incidents :: "pos \<rightharpoonup> string"
  generators :: "pos list"

text \<open>\<open>rnd p\<close> is the entropy behind the \<open>random.randint\<close> call made for cell \<open>p\<close>.\<close>

definition init_cell :: "(pos \<Rightarrow> nat) \<Rightarrow> pos \<times> cell \<Rightarrow> GridState \<Rightarrow> GridState" where
  "init_cell rnd pt g =
     (case pt of (p, t) \<Rightarrow>
        if t = CELL_BLOCK then g\<lparr>queues := (queues g)(p \<mapsto> 0)\<rparr>
        else if t = CELL_HEAVY then
          g\<lparr>queues := (queues g)(p \<mapsto> randint 6 12 (rnd p)), generators := generators g @ [p]\<rparr>
        else g\<lparr>queues := (queues g)(p \<mapsto> randint 0 4 (rnd p))\<rparr>)"

definition GridState_init :: "(pos \<times> cell) list \<Rightarrow> (pos \<Rightarrow> nat) \<Rightarrow> GridState" where
  "GridState_init lay rnd =
     fold (init_cell rnd) lay
       \<lparr>layout = lay, queues = Map.empty, incidents = Map.empty, generators = []\<rparr>"

text \<open>
  \<open>poisson lam p\<close> is the sample \<open>np.random.poisson(lam)\<close> returns when the loop is at
  cell \<open>p\<close>; a Poisson sample is a natural number.
\<close>

definition arrive :: "(real \<Rightarrow> pos \<Rightarrow> nat) \<Rightarrow> pos \<times> cell \<Rightarrow> (pos \<rightharpoonup> int) \<Rightarrow> (pos \<rightharpoonup> int)" where
  "arrive poisson pt q =
     (case pt of (p, t) \<Rightarrow>
        if t = CELL_BLOCK then q
        else
          let q1 = (if t = CELL_HEAVY then q(p \<mapsto> dict_get q p 0 + int (poisson 1.6 p))
                    else q(p \<mapsto> dict_get q p 0 + int (poisson 0.6 p)))
          in q1(p \<mapsto> min (dict_get q1 p 0) 80))"

definition step_traffic_arrivals :: "GridState \<Rightarrow> (real \<Rightarrow> pos \<Rightarrow> nat) \<Rightarrow> GridState" where
  "step_traffic_arrivals g poisson = g\<lparr>queues := fold (arrive poisson) (layout g) (queues g)\<rparr>"

definition estimated_speed_at :: "GridState \<Rightarrow> pos \<Rightarrow> real" where
  "estimated_speed_at g p =
     (let q = dict_get (queues g) p 0;
          base = 12;
          speed = base * (1 / (1 + 0.08 * real_of_int q))
      in speed)"

text \<open>\<open>drain_queue\<close> returns the updated grid state and the number of vehicles removed.\<close>

definition drain_queue :: "GridState \<Rightarrow> pos \<Rightarrow> int \<Rightarrow> GridState \<times> int" where
  "drain_queue g p count =
     (let available = dict_get (queues g) p 0;
          actual = min available count
      in (g\<lparr>queues := (queues g)(p \<mapsto> max 0 (available - actual))\<rparr>, actual))"

section \<open>Server\<close>

text \<open>
  A \<open>Decision\<close> is the dictionary \<open>issue_preemption\<close> appends to the log. The
  \<open>signals\<close> dictionary is an association list in insertion order; the ambulance, the
  GUI and the server share this one dictionary and the one grid state, which the model
  keeps in the server record. The lock is left out: the model is sequential. Time stamps
  (\<open>time.time()\<close>) are parameters.
\<close>

record Decision =
  d_time :: real
  ambulance_pos :: pos
  corridor :: "pos list"
  actions :: "(string \<times> pos) list"
  d_note :: string

record Server =
  grid :: GridState
  signals :: "(pos \<times> Signal) list"
  log_srv :: "Decision list"
  last_decision_time :: real

definition Server_init :: "GridState \<Rightarrow> (pos \<times> Signal) list \<Rightarrow> Server" where
  "Server_init g sigs = \<lparr>grid = g, signals = sigs, log_srv = [], last_decision_time = 0\<rparr>"

text \<open>\<open>signals[k].f()\<close>: the object stored under key \<open>k\<close> is mutated in place.\<close>

fun dict_apply :: "'k \<Rightarrow> ('v \<Rightarrow> 'v) \<Rightarrow> ('k \<times> 'v) list \<Rightarrow> ('k \<times> 'v) list" where
  "dict_apply k f [] = []"
| "dict_apply k f ((k', v) # kvs) =
     (if k' = k then (k', f v) # kvs else (k', v) # dict_apply k f kvs)"

text \<open>
  The loop of \<open>issue_preemption\<close> over \<open>signals.items()\<close>: it returns the signals
  after the loop and the \<open>set_red\<close> actions it appended, in order.
\<close>

fun red_loop :: "pos \<Rightarrow> (pos \<times> Signal) list \<Rightarrow> (pos \<times> Signal) list \<times> (string \<times> pos) list" where
  "red_loop next_node [] = ([], [])"
| "red_loop next_node ((p, sg) # rest) =
     (let (rest', acts) = red_loop next_node rest in
        if p = next_node then ((p, sg) # rest', acts)
        else if manhattan p next_node \<le> 2 then ((p, set_red sg) # rest', (''set_red'', p) # acts)
        else ((p, sg) # rest', acts))"

definition issue_preemption ::
    "Server \<Rightarrow> pos \<Rightarrow> pos list \<Rightarrow> int \<Rightarrow> real \<Rightarrow> error + (Decision \<times> Server)" where
  "issue_preemption srv amb_pos corr severity tstamp =
     (if corr = [] then Inl IndexError
      else
        let decision0 = \<lparr>d_time = tstamp, ambulance_pos = amb_pos, corridor = corr,
                          actions = [], d_note = []\<rparr>;
            next_node = (if length corr \<ge> 2 then corr ! 1 else corr ! 0);
            (sigs1, decision1) =
              (if next_node \<in> set (map fst (signals srv))
               then (dict_apply next_node set_green (signals srv),
                     decision0\<lparr>actions := actions decision0 @ [(''set_green'', next_node)]\<rparr>)
               else (signals srv, decision0));
            (sigs2, reds) = red_loop next_node sigs1;
            decision2 = decision1\<lparr>actions := actions decision1 @ reds\<rparr>;
            decision3 = decision2\<lparr>d_note :=
              ''preemption: set next green & neighbors red; upstream gating applied''\<rparr>
        in Inr (decision3,
                srv\<lparr>signals := sigs2, log_srv := log_srv srv @ [decision3], last_decision_time := tstamp\<rparr>))"

definition clear_overrides_after :: "Server \<Rightarrow> real \<Rightarrow> real \<Rightarrow> Server" where
  "clear_overrides_after srv seconds tnow =
     srv\<lparr>signals :=
       map (\<lambda>(p, sg). if override sg \<and> tnow - last_decision_time srv > seconds
                       then (p, clear_override sg) else (p, sg))
         (signals srv)\<rparr>"

section \<open>The benchmark's network (benchmarking\_tool.py)\<close>

definition QUEUE_CAPACITY :: int where
  "QUEUE_CAPACITY = 30"

record TrafficSignal =
  node :: pos
  ts_phase :: int
  ts_timer :: int
  green_time :: int
  red_time :: int
  switches :: int

definition TrafficSignal_init :: "pos \<Rightarrow> TrafficSignal" where
  "TrafficSignal_init n =
     \<lparr>node = n, ts_phase = 0, ts_timer = 0, green_time = 5, red_time = 5, switches = 0\<rparr>"

definition TrafficSignal_step :: "TrafficSignal \<Rightarrow> TrafficSignal" where
  "TrafficSignal_step s =
     (let s1 = s\<lparr>ts_timer := ts_timer s + 1\<rparr> in
        if ts_phase s1 = 0 \<and> ts_timer s1 \<ge> green_time s1
        then s1\<lparr>ts_phase := 1, ts_timer := 0, switches := switches s1 + 1\<rparr>
        else if ts_phase s1 = 1 \<and> ts_timer s1 \<ge> red_time s1
        then s1\<lparr>ts_phase := 0, ts_timer := 0, switches := switches s1 + 1\<rparr>
        else s1)"

record TrafficNetwork =
  net_size :: nat
  net_signals :: "(pos \<times> TrafficSignal) list"
  net_queues :: "pos \<rightharpoonup> int"
  total_delay :: int
  spillbacks :: int
  throughput :: int
  stress :: bool
  blockages :: "pos set"

text \<open>
  \<open>rnd i\<close> is the entropy of the \<open>i\<close>-th \<open>random.randint\<close> call of the constructor
  (\<open>size\<close> is at least 1 there: \<open>CITY_SIZE = 5\<close>).
\<close>

definition TrafficNetwork_init :: "nat \<Rightarrow> bool \<Rightarrow> bool \<Rightarrow> (nat \<Rightarrow> nat) \<Rightarrow> TrafficNetwork" where
  "TrafficNetwork_init sz strs blockage rnd =
     \<lparr>net_size = sz,
      net_signals = concat (map (\<lambda>i. map (\<lambda>j. ((int i, int j), TrafficSignal_init (int i, int j)))
                                      [0..<sz]) [0..<sz]),
      net_queues = Map.empty,
      total_delay = 0, spillbacks = 0, throughput = 0, stress = strs,
      blockages =
        (if blockage
         then set (map (\<lambda>k. (randint 0 (int sz - 1) (rnd (2 * k)),
                              randint 0 (int sz - 1) (rnd (2 * k + 1)))) [0..<3])
         else {})\<rparr>"

definition arrive_node :: "(real \<Rightarrow> pos \<Rightarrow> nat) \<Rightarrow> real \<Rightarrow> pos \<Rightarrow> TrafficNetwork \<Rightarrow> TrafficNetwork" where
  "arrive_node poisson lam nd net =
     (if nd \<in> blockages net then net
      else
        let net1 = net\<lparr>net_queues :=
                     (net_queues net)(nd \<mapsto> dict_get (net_queues net) nd 0 + int (poisson lam nd))\<rparr>
        in if dict_get (net_queues net1) nd 0 > QUEUE_CAPACITY
           then net1\<lparr>spillbacks := spillbacks net1 + 1,
                     net_queues := (net_queues net1)(nd \<mapsto> QUEUE_CAPACITY)\<rparr>
           else net1)"

definition arrivals :: "TrafficNetwork \<Rightarrow> (real \<Rightarrow> pos \<Rightarrow> nat) \<Rightarrow> TrafficNetwork" where
  "arrivals net poisson =
     (let lam = (if stress net then 4 else 2)
      in fold (arrive_node poisson lam) (map fst (net_signals net)) net)"

text \<open>
  One pass of the loop of \<open>departures\<close>: the signals already visited are rebuilt in
  order, since \<open>signal.step()\<close> mutates the object in place.
\<close>

fun depart_loop ::
    "pos list option \<Rightarrow> (pos \<times> TrafficSignal) list \<Rightarrow> TrafficNetwork
       \<Rightarrow> (pos \<times> TrafficSignal) list \<times> TrafficNetwork" where
  "depart_loop amb [] net = ([], net)"
| "depart_loop amb ((nd, sg) # rest) net =
     (if nd \<in> blockages net then
        (let (rest', net') = depart_loop amb rest net in ((nd, sg) # rest', net'))
      else
        let outflow =
              (if (case amb of None \<Rightarrow> False | Some ns \<Rightarrow> ns \<noteq> [] \<and> nd \<in> set ns)
               then min 5 (dict_get (net_queues net) nd 0)
               else min (if ts_phase sg = 0 then 2 else 0) (dict_get (net_queues net) nd 0));
            net1 = net\<lparr>net_queues := (net_queues net)(nd \<mapsto> dict_get (net_queues net) nd 0 - outflow)\<rparr>;
            net2 = net1\<lparr>throughput := throughput net1 + outflow\<rparr>;
            net3 = net2\<lparr>total_delay := total_delay net2 + dict_get (net_queues net2) nd 0\<rparr>;
            (rest', net') = depart_loop amb rest net3
        in ((nd, TrafficSignal_step sg) # rest', net'))"

definition departures :: "TrafficNetwork \<Rightarrow> pos list option \<Rightarrow> TrafficNetwork" where
  "departures net amb =
     (let (sigs', net') = depart_loop amb (net_signals net) net in net'\<lparr>net_signals := sigs'\<rparr>)"

section \<open>Queue drains\<close>

lemma drain_queue_result:
  "snd (drain_queue g p n) = min n (dict_get (queues g) p 0)"
  by (simp add: drain_queue_def Let_def min.commute)

lemma drain_queue_queue:
  "dict_get (queues (fst (drain_queue g p n))) p 0
     = dict_get (queues g) p 0 - min n (dict_get (queues g) p 0)"
  by (simp add: drain_queue_def Let_def dict_get_def)

lemma drain_queue_other:
  "p' \<noteq> p \<Longrightarrow> queues (fst (drain_queue g p n)) p' = queues g p'"
  by (simp add: drain_queue_def Let_def)

text \<open>
  Claim C8. For every position \<open>p\<close> and requested count \<open>n\<close>, \<open>drain_queue\<close> removes
  exactly \<open>min n queue[p]\<close> vehicles, leaves the queue non-negative, returns the number
  removed (at most \<open>n\<close> and at most the prior queue), leaves every other cell as it was,
  and a drain of \<open>n1\<close> followed by a drain of \<open>n2\<close> removes
  \<open>min n1 queue + min n2 (queue - removed1)\<close> in total.
\<close>

theorem drain_queue_exact:
  fixes g :: GridState and p :: pos and n n1 n2 :: int
  defines "q \<equiv> dict_get (queues g) p 0"
  defines "g1 \<equiv> fst (drain_queue g p n1)" and "r1 \<equiv> snd (drain_queue g p n1)"
  defines "g2 \<equiv> fst (drain_queue g1 p n2)" and "r2 \<equiv> snd (drain_queue g1 p n2)"
  shows "snd (drain_queue g p n) = min n q
    \<and> dict_get (queues (fst (drain_queue g p n))) p 0 = q - min n q
    \<and> 0 \<le> dict_get (queues (fst (drain_queue g p n))) p 0
    \<and> snd (drain_queue g p n) \<le> n
    \<and> snd (drain_queue g p n) \<le> q
    \<and> (\<forall>p'. p' \<noteq> p \<longrightarrow> queues (fst (drain_queue g p n)) p' = queues g p')
    \<and> layout (fst (drain_queue g p n)) = layout g
    \<and> r1 + r2 = min n1 q + min n2 (q - r1)
    \<and> dict_get (queues g2) p 0 = q - (r1 + r2)"
proof -
  have a: "snd (drain_queue g p n) = min n q"
    unfolding q_def by (rule drain_queue_result)
  have b: "dict_get (queues (fst (drain_queue g p n))) p 0 = q - min n q"
    unfolding q_def by (rule drain_queue_queue)
  have c: "\<forall>p'. p' \<noteq> p \<longrightarrow> queues (fst (drain_queue g p n)) p' = queues g p'"
    by (simp add: drain_queue_other)
  have d: "layout (fst (drain_queue g p n)) = layout g"
    by (simp add: drain_queue_def Let_def)
  have r1: "r1 = min n1 q"
    unfolding r1_def q_def by (rule drain_queue_result)
  have q1: "dict_get (queues g1) p 0 = q - r1"
    unfolding g1_def r1_def q_def by (simp add: drain_queue_queue drain_queue_result)
  have r2: "r2 = min n2 (q - r1)"
    unfolding r2_def using q1 by (simp add: drain_queue_result)
  have q2: "dict_get (queues g2) p 0 = q - (r1 + r2)"
    unfolding g2_def using q1 r2 by (simp add: drain_queue_queue)
  from a b c d r1 r2 q2 show ?thesis by auto
qed

theorem drain_queue_exact_witness:
  "snd (drain_queue \<lparr>layout = [((0, 0), CELL_ROAD), ((1, 0), CELL_ROAD)],
        queues = [(0, 0) \<mapsto> 5, (1, 0) \<mapsto> 7], incidents = Map.empty, generators = []\<rparr> (0, 0) 3) = 3
   \<and> queues (fst (drain_queue \<lparr>layout = [((0, 0), CELL_ROAD), ((1, 0), CELL_ROAD)],
        queues = [(0, 0) \<mapsto> 5, (1, 0) \<mapsto> 7], incidents = Map.empty, generators = []\<rparr> (0, 0) 3)) (1, 0)
      = Some 7
   \<and> dict_get (queues (fst (drain_queue \<lparr>layout = [((0, 0), CELL_ROAD), ((1, 0), CELL_ROAD)],
        queues = [(0, 0) \<mapsto> 5, (1, 0) \<mapsto> 7], incidents = Map.empty, generators = []\<rparr> (0, 0) 3))) (0, 0) 0
      = 2"
  using drain_queue_exact [of "\<lparr>layout = [((0, 0), CELL_ROAD), ((1, 0), CELL_ROAD)],
        queues = [(0, 0) \<mapsto> 5, (1, 0) \<mapsto> 7], incidents = Map.empty, generators = []\<rparr>" "(0, 0)" 3 3 3]
  by (simp add: dict_get_def)

section \<open>Estimated speed\<close>

lemma estimated_speed_at_formula:
  "estimated_speed_at g p = 12 / (1 + 0.08 * real_of_int (dict_get (queues g) p 0))"
  by (simp add: estimated_speed_at_def Let_def)

text \<open>
  Claim C9. \<open>estimated_speed_at\<close> equals \<open>base / (1 + k * queue[p])\<close> with the fixed
  constants \<open>base = 12\<close> and \<open>k = 0.08\<close>; it only reads the queue, so two grid states
  with the same queue length give the same speed; it is strictly decreasing in the queue
  length and at most \<open>base\<close>, for queue lengths from 0 on.
\<close>

theorem estimated_speed_at_decreasing:
  "estimated_speed_at g p = 12 / (1 + 0.08 * real_of_int (dict_get (queues g) p 0))
   \<and> (dict_get (queues g) p 0 = dict_get (queues g') p' 0
        \<longrightarrow> estimated_speed_at g p = estimated_speed_at g' p')
   \<and> (0 \<le> dict_get (queues g) p 0 \<and> dict_get (queues g) p 0 < dict_get (queues g') p' 0
        \<longrightarrow> estimated_speed_at g' p' < estimated_speed_at g p)
   \<and> (0 \<le> dict_get (queues g) p 0 \<longrightarrow> estimated_speed_at g p \<le> 12)"
proof -
  let ?q = "real_of_int (dict_get (queues g) p 0)"
  let ?q' = "real_of_int (dict_get (queues g') p' 0)"
  have dec: "estimated_speed_at g' p' < estimated_speed_at g p"
    if "0 \<le> dict_get (queues g) p 0" "dict_get (queues g) p 0 < dict_get (queues g') p' 0"
  proof -
    from that have "0 \<le> ?q" "?q < ?q'" by simp_all
    then have "0 < 1 + 0.08 * ?q" "1 + 0.08 * ?q < 1 + 0.08 * ?q'" by simp_all
    then have "12 / (1 + 0.08 * ?q') < 12 / (1 + 0.08 * ?q)"
      by (intro divide_strict_left_mono mult_pos_pos) simp_all
    then show ?thesis by (simp only: estimated_speed_at_formula)
  qed
  have bound: "estimated_speed_at g p \<le> 12" if "0 \<le> dict_get (queues g) p 0"
  proof -
    from that have "1 \<le> 1 + 0.08 * ?q" by simp
    then have "12 / (1 + 0.08 * ?q) \<le> 12 / 1"
      by (intro divide_left_mono) simp_all
    then show ?thesis by (simp only: estimated_speed_at_formula div_by_1)
  qed
  show ?thesis
    using dec bound by (simp add: estimated_speed_at_formula)
qed

theorem estimated_speed_at_decreasing_witness:
  "estimated_speed_at \<lparr>layout = [], queues = [(0, 0) \<mapsto> 0], incidents = Map.empty, generators = []\<rparr> (0, 0) = 12
   \<and> estimated_speed_at \<lparr>layout = [], queues = [(0, 0) \<mapsto> 25], incidents = Map.empty, generators = []\<rparr> (0, 0)
      < estimated_speed_at \<lparr>layout = [], queues = [(0, 0) \<mapsto> 0], incidents = Map.empty, generators = []\<rparr> (0, 0)
   \<and> estimated_speed_at \<lparr>layout = [], queues = [(0, 0) \<mapsto> 25], incidents = Map.empty, generators = []\<rparr> (0, 0) = 4"
  using estimated_speed_at_decreasing
    [of "\<lparr>layout = [], queues = [(0, 0) \<mapsto> 0], incidents = Map.empty, generators = []\<rparr>" "(0, 0)"
        "\<lparr>layout = [], queues = [(0, 0) \<mapsto> 25], incidents = Map.empty, generators = []\<rparr>" "(0, 0)"]
  by (simp add: dict_get_def estimated_speed_at_def Let_def)


section \<open>Signal timing\<close>





lemma step_timer_overridden: "override s \<Longrightarrow> step_timer s dt = s"
  by (simp add: step_timer_def)













section \<open>Preemption and overrides\<close>

lemma step_timer_fold_overridden:
  "override sg \<Longrightarrow> fold (\<lambda>dt s. step_timer s dt) dts sg = sg"
  by (induction dts) (simp_all add: step_timer_overridden)

lemma red_loop_fst:
  "fst (red_loop nn xs) =
     map (\<lambda>(p, sg). if p \<noteq> nn \<and> manhattan p nn \<le> 2 then (p, set_red sg) else (p, sg)) xs"
  by (induction xs) (auto simp: Let_def split: prod.splits)

lemma red_loop_snd:
  "snd (red_loop nn xs) =
     map (\<lambda>p. (''set_red'', p)) (filter (\<lambda>p. p \<noteq> nn \<and> manhattan p nn \<le> 2) (map fst xs))"
  by (induction xs) (auto simp: Let_def split: prod.splits)

lemma dict_apply_keys: "map fst (dict_apply k f xs) = map fst xs"
  by (induction xs) auto

lemma map_of_dict_apply:
  "map_of (dict_apply k f xs) = (map_of xs)(k := map_option f (map_of xs k))"
  by (induction xs) (auto simp: fun_eq_iff)

lemma issue_preemption_result:
  fixes srv :: Server and corr :: "pos list"
  assumes "corr \<noteq> []"
  defines "nn \<equiv> (if length corr \<ge> 2 then corr ! 1 else corr ! 0)"
  defines "sigs1 \<equiv> (if nn \<in> set (map fst (signals srv))
                     then dict_apply nn set_green (signals srv) else signals srv)"
  shows "\<exists>d. issue_preemption srv a corr sev t =
           Inr (d, srv\<lparr>signals := fst (red_loop nn sigs1), log_srv := log_srv srv @ [d],
                        last_decision_time := t\<rparr>)
         \<and> actions d = (if nn \<in> set (map fst (signals srv)) then [(''set_green'', nn)] else [])
                          @ snd (red_loop nn sigs1)
         \<and> corridor d = corr \<and> d_time d = t \<and> ambulance_pos d = a"
  using assms(1) unfolding nn_def sigs1_def
  by (simp add: issue_preemption_def Let_def split: prod.splits)

lemma clear_overrides_after_noop:
  "tnow - last_decision_time srv \<le> sec \<Longrightarrow> clear_overrides_after srv sec tnow = srv"
  by (simp add: clear_overrides_after_def case_prod_beta)

lemma clear_overrides_after_signals:
  "tnow - last_decision_time srv > sec \<Longrightarrow>
   signals (clear_overrides_after srv sec tnow) =
     map (\<lambda>e. if override (snd e) then (fst e, clear_override (snd e)) else e) (signals srv)"
  by (simp add: clear_overrides_after_def case_prod_beta)

lemma clear_overrides_after_ldt:
  "last_decision_time (clear_overrides_after srv sec tnow) = last_decision_time srv"
  by (simp add: clear_overrides_after_def)

lemma clear_overrides_after_twice:
  assumes "tnow \<le> tnow'"
  shows "clear_overrides_after (clear_overrides_after srv sec tnow) sec tnow'
           = clear_overrides_after srv sec tnow'"
proof (cases "tnow - last_decision_time srv > sec")
  case True
  with assms have "tnow' - last_decision_time srv > sec" by simp
  with True show ?thesis
    by (simp add: clear_overrides_after_def case_prod_beta clear_override_def comp_def)
next
  case False
  then show ?thesis by (simp add: clear_overrides_after_noop)
qed


lemma map_of_red_loop:
  "map_of (fst (red_loop nn xs)) p =
     map_option (\<lambda>sg. if p \<noteq> nn \<and> manhattan p nn \<le> 2 then set_red sg else sg) (map_of xs p)"
  unfolding red_loop_fst by (induction xs) auto

lemma map_of_key_Some: "k \<in> set (map fst xs) \<Longrightarrow> \<exists>v. map_of xs k = Some v"
  by (cases "map_of xs k") (auto simp: map_of_eq_None_iff)

lemma issue_preemption_overrides:
  assumes ip: "issue_preemption srv a corr sev t = Inr (d, srv')"
    and e: "e \<in> set (actions d)"
  shows "\<exists>sg. map_of (signals srv') (snd e) = Some sg \<and> override sg \<and> timer sg = 0
           \<and> state sg = (if fst e = ''set_green'' then GREEN else RED)"
proof -
  from ip have ne: "corr \<noteq> []"
    by (auto simp: issue_preemption_def split: if_splits)
  define nn where "nn = (if length corr \<ge> 2 then corr ! 1 else corr ! 0)"
  define sigs1 where "sigs1 = (if nn \<in> set (map fst (signals srv))
                     then dict_apply nn set_green (signals srv) else signals srv)"
  from issue_preemption_result [OF ne, of srv a sev t] ip
  have sig: "signals srv' = fst (red_loop nn sigs1)"
    and act: "actions d = (if nn \<in> set (map fst (signals srv)) then [(''set_green'', nn)] else [])
                @ snd (red_loop nn sigs1)"
    unfolding nn_def sigs1_def by auto
  have keys: "map fst sigs1 = map fst (signals srv)"
    by (simp add: sigs1_def dict_apply_keys)
  from e act consider
      (g) "nn \<in> set (map fst (signals srv))" "e = (''set_green'', nn)"
    | (r) "e \<in> set (snd (red_loop nn sigs1))"
    by (auto split: if_splits)
  then show ?thesis
  proof cases
    case g
    from map_of_key_Some [OF g(1)] obtain s0 where "map_of (signals srv) nn = Some s0" ..
    with g have "map_of sigs1 nn = Some (set_green s0)"
      by (simp add: sigs1_def map_of_dict_apply)
    then have "map_of (signals srv') nn = Some (set_green s0)"
      by (simp add: sig map_of_red_loop)
    with g show ?thesis by (simp add: set_green_def)
  next
    case r
    then obtain p where p: "e = (''set_red'', p)" "p \<noteq> nn" "manhattan p nn \<le> 2"
        "p \<in> set (map fst sigs1)"
      by (auto simp: red_loop_snd)
    from p(4) keys have "p \<in> set (map fst (signals srv))" by simp
    from map_of_key_Some [OF this] obtain s0 where "map_of (signals srv) p = Some s0" ..
    with p have "map_of sigs1 p = Some s0"
      by (simp add: sigs1_def map_of_dict_apply)
    with p have "map_of (signals srv') p = Some (set_red s0)"
      by (simp add: sig map_of_red_loop)
    with p show ?thesis by (simp add: set_red_def)
  qed
qed

text \<open>A small server for the concrete runs below.\<close>

definition demo_grid :: GridState where
  "demo_grid =
     \<lparr>layout = [((0, 0), CELL_ROAD), ((1, 0), CELL_SIGNAL), ((2, 0), CELL_SIGNAL),
                ((5, 5), CELL_SIGNAL), ((0, 1), CELL_BLOCK)],
      queues = [(0, 0) \<mapsto> 5, (1, 0) \<mapsto> 7, (2, 0) \<mapsto> 80, (5, 5) \<mapsto> 0, (0, 1) \<mapsto> 0],
      incidents = Map.empty, generators = []\<rparr>"

definition demo_server :: Server where
  "demo_server =
     Server_init demo_grid
       [((1, 0), Signal_init (1, 0)), ((2, 0), Signal_init (2, 0)), ((5, 5), Signal_init (5, 5))]"

text \<open>
  Claim C2, as amended. For a non-empty corridor \<open>issue_preemption\<close> returns and appends
  one decision. Its next hop is \<open>corridor[1]\<close>, or \<open>corridor[0]\<close> for a corridor of length
  1. The action list has one \<open>set_green\<close> entry, for the next hop, when the next hop has a
  signal, and none otherwise; every other entry is a \<open>set_red\<close> at a signal position
  other than the next hop within Manhattan distance 2 of it, these positions are pairwise
  distinct, and every such signal has its entry.
\<close>

theorem issue_preemption_actions:
  fixes srv :: Server and corr :: "pos list"
  assumes "corr \<noteq> []" and "distinct (map fst (signals srv))"
  defines "next_hop \<equiv> (if length corr \<ge> 2 then corr ! 1 else corr ! 0)"
  shows "\<exists>d srv'. issue_preemption srv a corr sev t = Inr (d, srv')
     \<and> log_srv srv' = log_srv srv @ [d]
     \<and> filter (\<lambda>e. fst e = ''set_green'') (actions d)
         = (if next_hop \<in> fst ` set (signals srv) then [(''set_green'', next_hop)] else [])
     \<and> (\<forall>e \<in> set (actions d). fst e = ''set_green'' \<or> fst e = ''set_red'')
     \<and> (\<forall>e \<in> set (actions d). fst e = ''set_red'' \<longrightarrow>
           snd e \<noteq> next_hop \<and> manhattan (snd e) next_hop \<le> 2 \<and> snd e \<in> fst ` set (signals srv))
     \<and> distinct (map snd (filter (\<lambda>e. fst e = ''set_red'') (actions d)))
     \<and> (\<forall>p \<in> fst ` set (signals srv). p \<noteq> next_hop \<and> manhattan p next_hop \<le> 2 \<longrightarrow>
           (''set_red'', p) \<in> set (actions d))"
proof -
  define sigs1 where "sigs1 = (if next_hop \<in> set (map fst (signals srv))
                     then dict_apply next_hop set_green (signals srv) else signals srv)"
  define reds where "reds = filter (\<lambda>p. p \<noteq> next_hop \<and> manhattan p next_hop \<le> 2)
                               (map fst (signals srv))"
  have keys: "map fst sigs1 = map fst (signals srv)"
    by (simp add: sigs1_def dict_apply_keys)
  from issue_preemption_result [OF assms(1), of srv a sev t]
  obtain d where ip: "issue_preemption srv a corr sev t =
        Inr (d, srv\<lparr>signals := fst (red_loop next_hop sigs1), log_srv := log_srv srv @ [d],
                     last_decision_time := t\<rparr>)"
    and act0: "actions d = (if next_hop \<in> set (map fst (signals srv))
                 then [(''set_green'', next_hop)] else []) @ snd (red_loop next_hop sigs1)"
    unfolding next_hop_def sigs1_def by blast
  from act0 have act: "actions d = (if next_hop \<in> fst ` set (signals srv)
                 then [(''set_green'', next_hop)] else []) @ map (\<lambda>p. (''set_red'', p)) reds"
    by (simp add: red_loop_snd keys reds_def)
  have 1: "filter (\<lambda>e. fst e = ''set_green'') (actions d)
         = (if next_hop \<in> fst ` set (signals srv) then [(''set_green'', next_hop)] else [])"
    by (simp add: act filter_map comp_def)
  have 2: "\<forall>e \<in> set (actions d). fst e = ''set_green'' \<or> fst e = ''set_red''"
    by (auto simp: act)
  have 3: "\<forall>e \<in> set (actions d). fst e = ''set_red'' \<longrightarrow>
           snd e \<noteq> next_hop \<and> manhattan (snd e) next_hop \<le> 2 \<and> snd e \<in> fst ` set (signals srv)"
    by (force simp: act reds_def)
  have "map snd (filter (\<lambda>e. fst e = ''set_red'') (actions d)) = reds"
    by (simp add: act filter_map comp_def)
  moreover have "distinct reds"
    using assms(2) by (simp add: reds_def)
  ultimately have 4: "distinct (map snd (filter (\<lambda>e. fst e = ''set_red'') (actions d)))"
    by simp
  have 5: "\<forall>p \<in> fst ` set (signals srv). p \<noteq> next_hop \<and> manhattan p next_hop \<le> 2 \<longrightarrow>
           (''set_red'', p) \<in> set (actions d)"
    by (auto simp: act reds_def)
  from ip 1 2 3 4 5 show ?thesis by auto
qed

theorem issue_preemption_actions_witness:
  "map_sum id (actions \<circ> fst) (issue_preemption demo_server (0, 0) [(0, 0), (1, 0)] 1 100)
     = Inr [(''set_green'', (1, 0)), (''set_red'', (2, 0))]
   \<and> map_sum id (actions \<circ> fst) (issue_preemption demo_server (1, 0) [(1, 0)] 1 100)
     = Inr [(''set_green'', (1, 0)), (''set_red'', (2, 0))]"
proof -
  have h1: "[(0, 0), (1, 0)] \<noteq> ([] :: pos list)" by simp
  have h2: "distinct (map fst (signals demo_server))"
    by (simp add: demo_server_def Server_init_def)
  show ?thesis
    using issue_preemption_actions [OF h1 h2, of "(0, 0)" 1 100]
    by (simp add: issue_preemption_def demo_server_def Server_init_def Let_def manhattan_def
        Signal_init_def set_green_def set_red_def)
qed

text \<open>
  The claim as stated fails where the next hop carries no signal: the corridor below has
  next hop \<open>(0, 1)\<close>, and the decision holds no \<open>set_green\<close> entry.
\<close>

theorem issue_preemption_no_green_counterexample:
  "map_sum id (actions \<circ> fst) (issue_preemption demo_server (0, 0) [(0, 0), (0, 1)] 1 100)
     = Inr [(''set_red'', (1, 0))]"
  by (simp add: issue_preemption_def demo_server_def Server_init_def Let_def manhattan_def
      Signal_init_def set_green_def set_red_def)

text \<open>
  Claim C7, as amended. After \<open>issue_preemption\<close> every signal named in the decision has
  its phase set, timer 0 and \<open>override = True\<close>; no sequence of \<open>step_timer\<close> calls
  changes an overridden signal; \<open>clear_overrides_after\<close> changes nothing while the time
  since the last decision is at most the timeout, and clears every override (keeping the
  phases) once it is strictly greater; calling it again, at the same or a later time,
  changes nothing more.
\<close>

theorem override_lifecycle:
  assumes "corr \<noteq> []"
  shows "\<exists>d srv'. issue_preemption srv a corr sev t0 = Inr (d, srv')
    \<and> last_decision_time srv' = t0
    \<and> (\<forall>e \<in> set (actions d). \<exists>sg. map_of (signals srv') (snd e) = Some sg \<and> override sg
          \<and> timer sg = 0 \<and> state sg = (if fst e = ''set_green'' then GREEN else RED))
    \<and> (\<forall>sg dts. override sg \<longrightarrow> fold (\<lambda>dt s. step_timer s dt) dts sg = sg)
    \<and> (\<forall>sec tnow. tnow - t0 \<le> sec \<longrightarrow> clear_overrides_after srv' sec tnow = srv')
    \<and> (\<forall>sec tnow. tnow - t0 > sec \<longrightarrow>
          (\<forall>e \<in> set (signals (clear_overrides_after srv' sec tnow)). \<not> override (snd e))
          \<and> map (\<lambda>e. (fst e, state (snd e))) (signals (clear_overrides_after srv' sec tnow))
              = map (\<lambda>e. (fst e, state (snd e))) (signals srv'))
    \<and> (\<forall>s sec tnow tnow'. tnow \<le> tnow' \<longrightarrow>
          clear_overrides_after (clear_overrides_after s sec tnow) sec tnow'
            = clear_overrides_after s sec tnow')"
proof -
  from issue_preemption_result [OF assms, of srv a sev t0]
  obtain d srv' where ip: "issue_preemption srv a corr sev t0 = Inr (d, srv')"
    and ldt: "last_decision_time srv' = t0"
    by auto
  have 1: "\<forall>e \<in> set (actions d). \<exists>sg. map_of (signals srv') (snd e) = Some sg \<and> override sg
          \<and> timer sg = 0 \<and> state sg = (if fst e = ''set_green'' then GREEN else RED)"
    using issue_preemption_overrides [OF ip] by blast
  have 2: "\<forall>sg dts. override sg \<longrightarrow> fold (\<lambda>dt s. step_timer s dt) dts sg = sg"
    by (simp add: step_timer_fold_overridden)
  have 3: "\<forall>sec tnow. tnow - t0 \<le> sec \<longrightarrow> clear_overrides_after srv' sec tnow = srv'"
    using ldt by (simp add: clear_overrides_after_noop)
  have 4: "\<forall>sec tnow. tnow - t0 > sec \<longrightarrow>
          (\<forall>e \<in> set (signals (clear_overrides_after srv' sec tnow)). \<not> override (snd e))
          \<and> map (\<lambda>e. (fst e, state (snd e))) (signals (clear_overrides_after srv' sec tnow))
              = map (\<lambda>e. (fst e, state (snd e))) (signals srv')"
    using ldt by (auto simp: clear_overrides_after_signals clear_override_def)
  have 5: "\<forall>s sec tnow tnow'. tnow \<le> tnow' \<longrightarrow>
          clear_overrides_after (clear_overrides_after s sec tnow) sec tnow'
            = clear_overrides_after s sec tnow'"
    by (simp add: clear_overrides_after_twice)
  from ip ldt 1 2 3 4 5 show ?thesis by blast
qed

theorem override_lifecycle_witness:
  "map_sum id (\<lambda>r. map (\<lambda>e. (fst e, state (snd e), override (snd e))) (signals (snd r)))
      (issue_preemption demo_server (0, 0) [(0, 0), (1, 0)] 1 100)
     = Inr [((1, 0), GREEN, True), ((2, 0), RED, True), ((5, 5), RED, False)]
   \<and> map_sum id (\<lambda>r. map (\<lambda>e. (fst e, state (snd e), override (snd e)))
        (signals (clear_overrides_after (snd r) 6 107)))
      (issue_preemption demo_server (0, 0) [(0, 0), (1, 0)] 1 100)
     = Inr [((1, 0), GREEN, False), ((2, 0), RED, False), ((5, 5), RED, False)]"
proof -
  have h1: "[(0, 0), (1, 0)] \<noteq> ([] :: pos list)" by simp
  show ?thesis
    using override_lifecycle [OF h1, of demo_server "(0, 0)" 1 100]
    by (simp add: issue_preemption_def demo_server_def Server_init_def Let_def manhattan_def
        Signal_init_def set_green_def set_red_def clear_overrides_after_def clear_override_def)
qed

text \<open>
  The claim as stated fails at an elapsed time equal to the timeout: the decision is taken
  at time 100, and the call at time 106 with timeout 6 leaves both overrides in place.
\<close>

theorem clear_overrides_at_timeout_counterexample:
  "map_sum id (\<lambda>r. map (\<lambda>e. (fst e, override (snd e)))
        (signals (clear_overrides_after (snd r) 6 106)))
      (issue_preemption demo_server (0, 0) [(0, 0), (1, 0)] 1 100)
     = Inr [((1, 0), True), ((2, 0), True), ((5, 5), False)]"
  by (simp add: issue_preemption_def demo_server_def Server_init_def Let_def manhattan_def
      Signal_init_def set_green_def set_red_def clear_overrides_after_def clear_override_def)


section \<open>Queue bounds\<close>

text \<open>
  \<open>queue_bounded cap q\<close>: every position's queue, read with the default 0, lies between 0
  and \<open>cap\<close>; \<open>in_bounds\<close> is the same for one position.
\<close>

definition queue_bounded :: "int \<Rightarrow> (pos \<rightharpoonup> int) \<Rightarrow> bool" where
  "queue_bounded cap q \<longleftrightarrow> (\<forall>p. 0 \<le> dict_get q p 0 \<and> dict_get q p 0 \<le> cap)"

definition in_bounds :: "int \<Rightarrow> (pos \<rightharpoonup> int) \<Rightarrow> pos \<Rightarrow> bool" where
  "in_bounds cap q p \<longleftrightarrow> 0 \<le> dict_get q p 0 \<and> dict_get q p 0 \<le> cap"

lemma queue_bounded_iff: "queue_bounded cap q \<longleftrightarrow> (\<forall>p. in_bounds cap q p)"
  by (simp add: queue_bounded_def in_bounds_def)

subsection \<open>The benchmark's arrivals and departures\<close>

lemma arrive_node_fields [simp]:
  "blockages (arrive_node po lam nd net) = blockages net"
  "stress (arrive_node po lam nd net) = stress net"
  "net_signals (arrive_node po lam nd net) = net_signals net"
  by (simp_all add: arrive_node_def Let_def)

lemma fold_arrive_node_fields [simp]:
  "blockages (fold (arrive_node po lam) nds net) = blockages net"
  "net_signals (fold (arrive_node po lam) nds net) = net_signals net"
  by (induction nds arbitrary: net) simp_all

lemma arrive_node_in_bounds:
  "in_bounds QUEUE_CAPACITY (net_queues net) p \<Longrightarrow>
   in_bounds QUEUE_CAPACITY (net_queues (arrive_node po lam nd net)) p"
  by (auto simp: arrive_node_def Let_def in_bounds_def dict_get_def QUEUE_CAPACITY_def)

lemma fold_arrive_node_in_bounds:
  "in_bounds QUEUE_CAPACITY (net_queues net) p \<Longrightarrow>
   in_bounds QUEUE_CAPACITY (net_queues (fold (arrive_node po lam) nds net)) p"
  by (induction nds arbitrary: net) (simp_all add: arrive_node_in_bounds)

lemma arrive_node_spillbacks: "spillbacks net \<le> spillbacks (arrive_node po lam nd net)"
  by (simp add: arrive_node_def Let_def)

lemma fold_arrive_node_spillbacks:
  "spillbacks net \<le> spillbacks (fold (arrive_node po lam) nds net)"
proof (induction nds arbitrary: net)
  case Nil
  show ?case by simp
next
  case (Cons nd nds)
  have "spillbacks net \<le> spillbacks (arrive_node po lam nd net)"
    by (rule arrive_node_spillbacks)
  also have "\<dots> \<le> spillbacks (fold (arrive_node po lam) nds (arrive_node po lam nd net))"
    by (rule Cons.IH)
  finally show ?case by simp
qed

lemma arrive_node_other:
  "p \<noteq> nd \<Longrightarrow> net_queues (arrive_node po lam nd net) p = net_queues net p"
  by (simp add: arrive_node_def Let_def)

lemma fold_arrive_node_other:
  "p \<notin> set nds \<Longrightarrow> net_queues (fold (arrive_node po lam) nds net) p = net_queues net p"
  by (induction nds arbitrary: net) (simp_all add: arrive_node_other)

lemma arrive_node_blocked:
  "p \<in> blockages net \<Longrightarrow> net_queues (arrive_node po lam nd net) p = net_queues net p"
  by (auto simp: arrive_node_def Let_def)

lemma fold_arrive_node_blocked:
  "p \<in> blockages net \<Longrightarrow> net_queues (fold (arrive_node po lam) nds net) p = net_queues net p"
  by (induction nds arbitrary: net) (simp_all add: arrive_node_blocked)

lemma arrive_node_spill:
  assumes "nd \<notin> blockages net"
    and "dict_get (net_queues net) nd 0 + int (po lam nd) > QUEUE_CAPACITY"
  shows "spillbacks (arrive_node po lam nd net) = spillbacks net + 1"
    and "dict_get (net_queues (arrive_node po lam nd net)) nd 0 = QUEUE_CAPACITY"
  using assms by (simp_all add: arrive_node_def Let_def dict_get_def)

lemma fold_arrive_node_spill:
  assumes d: "distinct nds" and m: "nd \<in> set nds" and b: "nd \<notin> blockages net"
    and over: "dict_get (net_queues net) nd 0 + int (po lam nd) > QUEUE_CAPACITY"
  shows "spillbacks net < spillbacks (fold (arrive_node po lam) nds net)
    \<and> dict_get (net_queues (fold (arrive_node po lam) nds net)) nd 0 = QUEUE_CAPACITY"
proof -
  from m obtain xs ys where nds: "nds = xs @ nd # ys"
    by (auto simp: in_set_conv_decomp)
  with d have nx: "nd \<notin> set xs" and ny: "nd \<notin> set ys" by auto
  define n1 where "n1 = fold (arrive_node po lam) xs net"
  define n2 where "n2 = arrive_node po lam nd n1"
  have f: "fold (arrive_node po lam) nds net = fold (arrive_node po lam) ys n2"
    by (simp add: nds n1_def n2_def)
  have q1: "net_queues n1 nd = net_queues net nd"
    unfolding n1_def using nx by (rule fold_arrive_node_other)
  have b1: "nd \<notin> blockages n1" using b by (simp add: n1_def)
  have over1: "dict_get (net_queues n1) nd 0 + int (po lam nd) > QUEUE_CAPACITY"
    using over q1 by (simp add: dict_get_def)
  have s1: "spillbacks net \<le> spillbacks n1"
    unfolding n1_def by (rule fold_arrive_node_spillbacks)
  have s2: "spillbacks n2 = spillbacks n1 + 1"
    unfolding n2_def using b1 over1 by (rule arrive_node_spill)
  have q2: "dict_get (net_queues n2) nd 0 = QUEUE_CAPACITY"
    unfolding n2_def using b1 over1 by (rule arrive_node_spill)
  have s3: "spillbacks n2 \<le> spillbacks (fold (arrive_node po lam) ys n2)"
    by (rule fold_arrive_node_spillbacks)
  have q3: "net_queues (fold (arrive_node po lam) ys n2) nd = net_queues n2 nd"
    using ny by (rule fold_arrive_node_other)
  from s1 s2 s3 q2 q3 show ?thesis
    by (simp add: f dict_get_def)
qed

text \<open>What one pass of the loop of \<open>departures\<close> does to the network at a node that is not blocked.\<close>

definition depart_node :: "pos list option \<Rightarrow> pos \<Rightarrow> TrafficSignal \<Rightarrow> TrafficNetwork \<Rightarrow> TrafficNetwork" where
  "depart_node amb nd sg net =
     (let outflow =
            (if (case amb of None \<Rightarrow> False | Some ns \<Rightarrow> ns \<noteq> [] \<and> nd \<in> set ns)
             then min 5 (dict_get (net_queues net) nd 0)
             else min (if ts_phase sg = 0 then 2 else 0) (dict_get (net_queues net) nd 0));
          net1 = net\<lparr>net_queues := (net_queues net)(nd \<mapsto> dict_get (net_queues net) nd 0 - outflow)\<rparr>;
          net2 = net1\<lparr>throughput := throughput net1 + outflow\<rparr>
      in net2\<lparr>total_delay := total_delay net2 + dict_get (net_queues net2) nd 0\<rparr>)"

lemma depart_loop_snd_Cons:
  "snd (depart_loop amb ((nd, sg) # rest) net) =
     (if nd \<in> blockages net then snd (depart_loop amb rest net)
      else snd (depart_loop amb rest (depart_node amb nd sg net)))"
  by (simp add: depart_node_def Let_def case_prod_beta)

lemma depart_node_blockages [simp]: "blockages (depart_node amb nd sg net) = blockages net"
  by (simp add: depart_node_def Let_def)

lemma depart_node_in_bounds:
  "in_bounds cap (net_queues net) p \<Longrightarrow> in_bounds cap (net_queues (depart_node amb nd sg net)) p"
  by (auto simp: depart_node_def Let_def in_bounds_def dict_get_def split: option.splits)

lemma depart_node_other:
  "p \<noteq> nd \<Longrightarrow> net_queues (depart_node amb nd sg net) p = net_queues net p"
  by (simp add: depart_node_def Let_def)

lemma depart_loop_in_bounds:
  "in_bounds cap (net_queues net) p \<Longrightarrow>
   in_bounds cap (net_queues (snd (depart_loop amb xs net))) p"
proof (induction xs arbitrary: net)
  case Nil
  then show ?case by simp
next
  case (Cons x xs)
  obtain nd sg where x: "x = (nd, sg)" by (cases x)
  from Cons.prems have "in_bounds cap (net_queues (depart_node amb nd sg net)) p"
    by (rule depart_node_in_bounds)
  with Cons show ?case
    by (simp only: x depart_loop_snd_Cons split: if_splits) simp
qed

lemma depart_loop_blocked:
  "p \<in> blockages net \<Longrightarrow> net_queues (snd (depart_loop amb xs net)) p = net_queues net p"
proof (induction xs arbitrary: net)
  case Nil
  then show ?case by simp
next
  case (Cons x xs)
  obtain nd sg where x: "x = (nd, sg)" by (cases x)
  show ?case
  proof (cases "nd \<in> blockages net")
    case True
    with Cons show ?thesis by (simp only: x depart_loop_snd_Cons if_True)
  next
    case False
    with Cons.prems have ne: "p \<noteq> nd" by auto
    from Cons.prems have "p \<in> blockages (depart_node amb nd sg net)" by simp
    from Cons.IH [OF this] False show ?thesis
      by (simp add: x depart_loop_snd_Cons depart_node_other [OF ne] del: depart_loop.simps)
  qed
qed

lemma departures_queues:
  "net_queues (departures net amb) = net_queues (snd (depart_loop amb (net_signals net) net))"
  by (simp add: departures_def split: prod.splits)

lemma arrivals_fold:
  "arrivals net po = fold (arrive_node po (if stress net then 4 else 2)) (map fst (net_signals net)) net"
  by (simp add: arrivals_def Let_def)

subsection \<open>The GUI's arrivals, drains and initial queues\<close>

lemma arrive_in_bounds:
  "in_bounds 80 q p \<Longrightarrow> in_bounds 80 (arrive po pt q) p"
  by (cases pt) (auto simp: arrive_def Let_def in_bounds_def dict_get_def)

lemma fold_arrive_in_bounds:
  "in_bounds 80 q p \<Longrightarrow> in_bounds 80 (fold (arrive po) lay q) p"
  by (induction lay arbitrary: q) (simp_all add: arrive_in_bounds)

lemma fold_arrive_blocked:
  "\<forall>t. (p, t) \<in> set lay \<longrightarrow> t = CELL_BLOCK \<Longrightarrow> fold (arrive po) lay q p = q p"
proof (induction lay arbitrary: q)
  case Nil
  show ?case by simp
next
  case (Cons pt lay)
  obtain p' t where pt: "pt = (p', t)" by (cases pt)
  from Cons.prems pt have a: "arrive po pt q p = q p"
    by (auto simp: arrive_def Let_def)
  from Cons.prems have "\<forall>t. (p, t) \<in> set lay \<longrightarrow> t = CELL_BLOCK" by simp
  from Cons.IH [OF this] a show ?case by simp
qed

lemma distinct_map_of_unique:
  "distinct (map fst lay) \<Longrightarrow> map_of lay p = Some c \<Longrightarrow> (p, t) \<in> set lay \<Longrightarrow> t = c"
  by (metis map_of_is_SomeI option.inject)

lemma init_cell_in_bounds:
  "in_bounds 80 (queues g) p \<Longrightarrow> in_bounds 80 (queues (init_cell rnd pt g)) p"
  by (cases pt) (auto simp: init_cell_def in_bounds_def dict_get_def randint_def)

lemma fold_init_cell_in_bounds:
  "in_bounds 80 (queues g) p \<Longrightarrow> in_bounds 80 (queues (fold (init_cell rnd) lay g)) p"
  by (induction lay arbitrary: g) (simp_all add: init_cell_in_bounds)

lemma fold_init_cell_blocked:
  "\<forall>t. (p, t) \<in> set lay \<longrightarrow> t = CELL_BLOCK \<Longrightarrow> (p, CELL_BLOCK) \<in> set lay \<or> queues g p = Some 0
   \<Longrightarrow> queues (fold (init_cell rnd) lay g) p = Some 0"
proof (induction lay arbitrary: g)
  case Nil
  then show ?case by simp
next
  case (Cons pt lay)
  obtain p' t where pt: "pt = (p', t)" by (cases pt)
  have "(p, CELL_BLOCK) \<in> set lay \<or> queues (init_cell rnd pt g) p = Some 0"
    using Cons.prems pt by (auto simp: init_cell_def)
  moreover from Cons.prems have "\<forall>t. (p, t) \<in> set lay \<longrightarrow> t = CELL_BLOCK" by simp
  ultimately show ?case using Cons.IH by simp
qed

lemma drain_queue_in_bounds:
  "0 \<le> n \<Longrightarrow> in_bounds cap (queues g) p' \<Longrightarrow> in_bounds cap (queues (fst (drain_queue g p n))) p'"
  by (auto simp: drain_queue_def Let_def in_bounds_def dict_get_def)


lemma arrive_other: "p \<noteq> fst pt \<Longrightarrow> arrive po pt q p = q p"
  by (cases pt) (simp add: arrive_def Let_def)

lemma fold_arrive_other: "p \<notin> fst ` set lay \<Longrightarrow> fold (arrive po) lay q p = q p"
  by (induction lay arbitrary: q) (simp_all add: arrive_other)

lemma arrive_clip:
  "t \<noteq> CELL_BLOCK \<Longrightarrow> dict_get q p 0 + int (po (if t = CELL_HEAVY then 1.6 else 0.6) p) > 80
   \<Longrightarrow> arrive po (p, t) q p = Some 80"
  by (cases "t = CELL_HEAVY") (simp_all add: arrive_def Let_def dict_get_def)

lemma fold_arrive_clip:
  assumes d: "distinct (map fst lay)" and m: "(p, t) \<in> set lay" and b: "t \<noteq> CELL_BLOCK"
    and over: "dict_get q p 0 + int (po (if t = CELL_HEAVY then 1.6 else 0.6) p) > 80"
  shows "fold (arrive po) lay q p = Some 80"
proof -
  from m obtain xs ys where lay: "lay = xs @ (p, t) # ys"
    by (auto simp: in_set_conv_decomp)
  with d have nx: "p \<notin> fst ` set xs" and ny: "p \<notin> fst ` set ys" by auto
  have q1: "fold (arrive po) xs q p = q p"
    using nx by (rule fold_arrive_other)
  then have "dict_get (fold (arrive po) xs q) p 0 = dict_get q p 0"
    by (simp add: dict_get_def)
  with over have "arrive po (p, t) (fold (arrive po) xs q) p = Some 80"
    using b by (simp add: arrive_clip)
  then show ?thesis
    using ny by (simp add: lay fold_arrive_other)
qed

text \<open>A small network for the concrete run below.\<close>

definition demo_net :: TrafficNetwork where
  "demo_net =
     \<lparr>net_size = 2,
      net_signals = [((0, 0), TrafficSignal_init (0, 0)), ((0, 1), TrafficSignal_init (0, 1)),
                     ((1, 0), TrafficSignal_init (1, 0)), ((1, 1), TrafficSignal_init (1, 1))],
      net_queues = [(0, 0) \<mapsto> 29, (1, 1) \<mapsto> 0],
      total_delay = 0, spillbacks = 0, throughput = 0, stress = False,
      blockages = {(1, 1)}\<rparr>"

text \<open>
  Claim C3, as amended. In the benchmark's network (capacity 30) the bound
  \<open>0 \<le> queue \<le> CAPACITY\<close> holds at every position initially and is kept by \<open>arrivals\<close>
  and by \<open>departures\<close>; the spillback counter never decreases, and an arrival step with
  a node whose queue plus its arrivals exceeds the capacity increases the counter strictly
  and leaves that queue at the capacity; the queue of a blocked node is changed by neither
  step. The GUI's grid has the cap 80 and no spillback counter: the bound holds initially
  and is kept by \<open>step_traffic_arrivals\<close> and by \<open>drain_queue\<close> with a non-negative count,
  arrivals beyond the cap leave the queue at the cap, and \<open>step_traffic_arrivals\<close>
  changes nothing of the grid but its queues; a Blocked cell starts with queue 0, arrivals
  leave its queue as it is, and a drain leaves an empty queue empty.
\<close>

theorem queue_bound_invariant:
  fixes net :: TrafficNetwork and g :: GridState
  assumes "queue_bounded QUEUE_CAPACITY (net_queues net)"
    and "distinct (map fst (net_signals net))"
    and "queue_bounded 80 (queues g)"
    and "distinct (map fst (layout g))"
    and "distinct (map fst lay)"
    and "0 \<le> count"
  shows "queue_bounded QUEUE_CAPACITY (net_queues (TrafficNetwork_init sz strs blk rnd))
    \<and> queue_bounded QUEUE_CAPACITY (net_queues (arrivals net poisson))
    \<and> queue_bounded QUEUE_CAPACITY (net_queues (departures net amb))
    \<and> spillbacks net \<le> spillbacks (arrivals net poisson)
    \<and> (\<forall>nd \<in> fst ` set (net_signals net).
          nd \<notin> blockages net
          \<and> dict_get (net_queues net) nd 0 + int (poisson (if stress net then 4 else 2) nd)
              > QUEUE_CAPACITY
          \<longrightarrow> spillbacks net < spillbacks (arrivals net poisson)
            \<and> dict_get (net_queues (arrivals net poisson)) nd 0 = QUEUE_CAPACITY)
    \<and> (\<forall>nd \<in> blockages net.
          net_queues (arrivals net poisson) nd = net_queues net nd
          \<and> net_queues (departures net amb) nd = net_queues net nd)
    \<and> queue_bounded 80 (queues (GridState_init lay rnd'))
    \<and> queue_bounded 80 (queues (step_traffic_arrivals g poisson))
    \<and> queue_bounded 80 (queues (fst (drain_queue g p count)))
    \<and> (\<forall>e \<in> set (layout g).
          snd e \<noteq> CELL_BLOCK
          \<and> dict_get (queues g) (fst e) 0
              + int (poisson (if snd e = CELL_HEAVY then 1.6 else 0.6) (fst e)) > 80
          \<longrightarrow> queues (step_traffic_arrivals g poisson) (fst e) = Some 80)
    \<and> (\<forall>b. map_of (layout g) b = Some CELL_BLOCK
          \<longrightarrow> queues (step_traffic_arrivals g poisson) b = queues g b)
    \<and> (\<forall>b. map_of lay b = Some CELL_BLOCK \<longrightarrow> queues (GridState_init lay rnd') b = Some 0)
    \<and> (\<forall>b. dict_get (queues g) b 0 = 0 \<longrightarrow> dict_get (queues (fst (drain_queue g b count))) b 0 = 0)
    \<and> step_traffic_arrivals g poisson = g\<lparr>queues := queues (step_traffic_arrivals g poisson)\<rparr>"
proof -
  have 1: "queue_bounded QUEUE_CAPACITY (net_queues (TrafficNetwork_init sz strs blk rnd))"
    by (simp add: queue_bounded_def TrafficNetwork_init_def dict_get_def QUEUE_CAPACITY_def)
  have 2: "queue_bounded QUEUE_CAPACITY (net_queues (arrivals net poisson))"
    using assms(1) by (simp add: queue_bounded_iff arrivals_fold fold_arrive_node_in_bounds)
  have 3: "queue_bounded QUEUE_CAPACITY (net_queues (departures net amb))"
    using assms(1) by (simp add: queue_bounded_iff departures_queues depart_loop_in_bounds)
  have 4: "spillbacks net \<le> spillbacks (arrivals net poisson)"
    by (simp add: arrivals_fold fold_arrive_node_spillbacks)
  have 5: "\<forall>nd \<in> fst ` set (net_signals net).
          nd \<notin> blockages net
          \<and> dict_get (net_queues net) nd 0 + int (poisson (if stress net then 4 else 2) nd)
              > QUEUE_CAPACITY
          \<longrightarrow> spillbacks net < spillbacks (arrivals net poisson)
            \<and> dict_get (net_queues (arrivals net poisson)) nd 0 = QUEUE_CAPACITY"
  proof (intro ballI impI)
    fix nd
    assume m: "nd \<in> fst ` set (net_signals net)"
      and h: "nd \<notin> blockages net
          \<and> dict_get (net_queues net) nd 0 + int (poisson (if stress net then 4 else 2) nd)
              > QUEUE_CAPACITY"
    from m have m': "nd \<in> set (map fst (net_signals net))" by simp
    from fold_arrive_node_spill [OF assms(2) m', of net poisson "if stress net then 4 else 2"] h
    show "spillbacks net < spillbacks (arrivals net poisson)
            \<and> dict_get (net_queues (arrivals net poisson)) nd 0 = QUEUE_CAPACITY"
      by (simp only: arrivals_fold) simp
  qed
  have 6: "\<forall>nd \<in> blockages net.
          net_queues (arrivals net poisson) nd = net_queues net nd
          \<and> net_queues (departures net amb) nd = net_queues net nd"
    by (simp add: arrivals_fold fold_arrive_node_blocked departures_queues depart_loop_blocked)
  have "in_bounds 80 (queues \<lparr>layout = lay, queues = Map.empty, incidents = Map.empty,
      generators = []\<rparr>) b" for b
    by (simp add: in_bounds_def dict_get_def)
  then have 7: "queue_bounded 80 (queues (GridState_init lay rnd'))"
    unfolding queue_bounded_iff GridState_init_def
    by (intro allI fold_init_cell_in_bounds)
  have 8: "queue_bounded 80 (queues (step_traffic_arrivals g poisson))"
    using assms(3) by (simp add: queue_bounded_iff step_traffic_arrivals_def fold_arrive_in_bounds)
  have 9: "queue_bounded 80 (queues (fst (drain_queue g p count)))"
    using assms(3,6) by (simp add: queue_bounded_iff drain_queue_in_bounds)
  have 10: "\<forall>e \<in> set (layout g).
          snd e \<noteq> CELL_BLOCK
          \<and> dict_get (queues g) (fst e) 0
              + int (poisson (if snd e = CELL_HEAVY then 1.6 else 0.6) (fst e)) > 80
          \<longrightarrow> queues (step_traffic_arrivals g poisson) (fst e) = Some 80"
  proof (intro ballI impI)
    fix e
    assume m: "e \<in> set (layout g)"
      and h: "snd e \<noteq> CELL_BLOCK
          \<and> dict_get (queues g) (fst e) 0
              + int (poisson (if snd e = CELL_HEAVY then 1.6 else 0.6) (fst e)) > 80"
    from m have m': "(fst e, snd e) \<in> set (layout g)" by simp
    from fold_arrive_clip [OF assms(4) m', of "queues g" poisson] h
    show "queues (step_traffic_arrivals g poisson) (fst e) = Some 80"
      by (simp add: step_traffic_arrivals_def)
  qed
  have 11: "\<forall>b. map_of (layout g) b = Some CELL_BLOCK
          \<longrightarrow> queues (step_traffic_arrivals g poisson) b = queues g b"
  proof (intro allI impI)
    fix b
    assume "map_of (layout g) b = Some CELL_BLOCK"
    with assms(4) have "\<forall>t. (b, t) \<in> set (layout g) \<longrightarrow> t = CELL_BLOCK"
      by (blast dest: distinct_map_of_unique)
    then show "queues (step_traffic_arrivals g poisson) b = queues g b"
      by (simp add: step_traffic_arrivals_def fold_arrive_blocked)
  qed
  have 12: "\<forall>b. map_of lay b = Some CELL_BLOCK \<longrightarrow> queues (GridState_init lay rnd') b = Some 0"
  proof (intro allI impI)
    fix b
    assume h: "map_of lay b = Some CELL_BLOCK"
    with assms(5) have a: "\<forall>t. (b, t) \<in> set lay \<longrightarrow> t = CELL_BLOCK"
      by (blast dest: distinct_map_of_unique)
    from h have "(b, CELL_BLOCK) \<in> set lay" by (rule map_of_SomeD)
    with a show "queues (GridState_init lay rnd') b = Some 0"
      by (simp add: GridState_init_def fold_init_cell_blocked)
  qed
  have 13: "\<forall>b. dict_get (queues g) b 0 = 0
          \<longrightarrow> dict_get (queues (fst (drain_queue g b count))) b 0 = 0"
    using assms(6) by (simp add: drain_queue_queue)
  have 14: "step_traffic_arrivals g poisson = g\<lparr>queues := queues (step_traffic_arrivals g poisson)\<rparr>"
    by (simp add: step_traffic_arrivals_def)
  from 1 2 3 4 5 6 7 8 9 10 11 12 13 14 show ?thesis by blast
qed

theorem queue_bound_invariant_witness:
  "spillbacks (arrivals demo_net (\<lambda>lam nd. 3)) = 1
   \<and> net_queues (arrivals demo_net (\<lambda>lam nd. 3)) (0, 0) = Some 30
   \<and> net_queues (arrivals demo_net (\<lambda>lam nd. 3)) (0, 1) = Some 3
   \<and> net_queues (arrivals demo_net (\<lambda>lam nd. 3)) (1, 1) = Some 0
   \<and> queues (step_traffic_arrivals demo_grid (\<lambda>lam nd. 5)) (2, 0) = Some 80
   \<and> queues (step_traffic_arrivals demo_grid (\<lambda>lam nd. 5)) (1, 0) = Some 12
   \<and> queues (step_traffic_arrivals demo_grid (\<lambda>lam nd. 5)) (0, 1) = Some 0
   \<and> queues (GridState_init (layout demo_grid) (\<lambda>nd. 7)) (0, 1) = Some 0"
proof -
  have h1: "queue_bounded QUEUE_CAPACITY (net_queues demo_net)"
    by (simp add: queue_bounded_def demo_net_def dict_get_def QUEUE_CAPACITY_def)
  have h2: "distinct (map fst (net_signals demo_net))"
    by (simp add: demo_net_def)
  have h3: "queue_bounded 80 (queues demo_grid)"
    by (simp add: queue_bounded_def demo_grid_def dict_get_def)
  have h4: "distinct (map fst (layout demo_grid))"
    by (simp add: demo_grid_def)
  have h5: "(0::int) \<le> 3" by simp
  show ?thesis
    using queue_bound_invariant [OF h1 h2 h3 h4 h4 h5, of 2 False False "\<lambda>i. 0" "\<lambda>lam nd. 3" None
        "\<lambda>nd. 7" "(0, 0)"]
    by (simp add: arrivals_def arrive_node_def demo_net_def Let_def dict_get_def
        QUEUE_CAPACITY_def step_traffic_arrivals_def arrive_def demo_grid_def
        GridState_init_def init_cell_def randint_def)
qed


text \<open>
  Claim C3 as first stated does not hold of \<open>GridState.step_traffic_arrivals\<close>: the
  grid keeps no spillback counter. Five arrivals at a road cell whose queue is at the
  cap 80 leave the whole grid state as it was, so nothing records the overflow, while
  the same overflow in the benchmark's network (three arrivals at a queue of 29) raises
  \<open>spillbacks\<close> from 0 to 1.
\<close>

theorem step_traffic_arrivals_no_spillback_counterexample:
  "dict_get [(0, 0) \<mapsto> 80] (0, 0) 0 + int 5 > 80
   \<and> step_traffic_arrivals
        \<lparr>layout = [((0, 0), CELL_ROAD)], queues = [(0, 0) \<mapsto> 80],
         incidents = Map.empty, generators = []\<rparr> (\<lambda>lam p. 5)
      = \<lparr>layout = [((0, 0), CELL_ROAD)], queues = [(0, 0) \<mapsto> 80],
         incidents = Map.empty, generators = []\<rparr>
   \<and> spillbacks demo_net = 0
   \<and> spillbacks (arrivals demo_net (\<lambda>lam nd. 3)) = 1"
  by (simp add: step_traffic_arrivals_def arrive_def dict_get_def Let_def
      arrivals_def arrive_node_def demo_net_def QUEUE_CAPACITY_def)


section \<open>Route planning\<close>

text \<open>
  \<open>compute_route\<close>: the dictionary \<open>prev\<close> maps a discovered cell to its predecessor,
  or to \<open>None\<close> (Python's) for the start. \<open>visit\<close> is the body of the loop over the
  neighbours of \<open>cur\<close>, \<open>bfs_loop\<close> the \<open>while queue\<close> loop with its \<open>break\<close>,
  \<open>backtrack\<close> the loop that follows \<open>prev\<close> from the goal; this last loop need not end
  on an arbitrary dictionary, so it is a partial function: \<open>None\<close> stands for a loop that
  does not return, \<open>Some (Inl KeyError)\<close> for a failed lookup.
\<close>

type_synonym prevmap = "pos \<rightharpoonup> pos option"

definition visit :: "(pos \<times> cell) list \<Rightarrow> pos \<Rightarrow> pos \<Rightarrow> pos list \<times> prevmap \<Rightarrow> pos list \<times> prevmap" where
  "visit lay cur nb qp =
     (case qp of (queue, prev) \<Rightarrow>
        if prev nb \<noteq> None then (queue, prev)
        else if map_of lay nb = Some CELL_BLOCK then (queue, prev)
        else (queue @ [nb], prev(nb \<mapsto> Some cur)))"

text \<open>The loop ends: each pass takes one cell off the queue, and each cell of the grid enters it at most once.\<close>

definition grid_cells :: "pos set" where
  "grid_cells = {c. within_grid (fst c) (snd c)}"

definition bfs_measure :: "pos list \<times> prevmap \<Rightarrow> nat" where
  "bfs_measure qp = 2 * card (grid_cells - dom (snd qp)) + length (fst qp)"

lemma finite_grid_cells: "finite grid_cells"
proof -
  have "grid_cells \<subseteq> {0..<GRID_W} \<times> {0..<GRID_H}"
    by (auto simp: grid_cells_def within_grid_def)
  then show ?thesis by (rule finite_subset) simp
qed

lemma neighbors_in_grid: "set (neighbors c) \<subseteq> grid_cells"
  by (auto simp: neighbors_def grid_cells_def)

lemma visit_measure:
  assumes "nb \<in> grid_cells"
  shows "bfs_measure (visit lay cur nb qp) \<le> bfs_measure qp"
proof (cases qp)
  case (Pair q p)
  show ?thesis
  proof (cases "p nb = None \<and> map_of lay nb \<noteq> Some CELL_BLOCK")
    case True
    let ?A = "grid_cells - dom p"
    from True assms have mem: "nb \<in> ?A" by auto
    have fin: "finite ?A" using finite_grid_cells by simp
    have "grid_cells - dom (p(nb \<mapsto> Some cur)) = ?A - {nb}" by auto
    moreover have "card (?A - {nb}) = card ?A - 1" using mem by simp
    moreover have "0 < card ?A" using mem fin by (auto simp: card_gt_0_iff)
    ultimately show ?thesis using True Pair
      by (simp add: visit_def bfs_measure_def)
  next
    case False
    with Pair show ?thesis by (auto simp: visit_def)
  qed
qed

lemma fold_visit_measure:
  "set ns \<subseteq> grid_cells \<Longrightarrow> bfs_measure (fold (visit lay cur) ns qp) \<le> bfs_measure qp"
proof (induction ns arbitrary: qp)
  case Nil
  show ?case by simp
next
  case (Cons nb ns)
  then have "bfs_measure (fold (visit lay cur) ns (visit lay cur nb qp))
               \<le> bfs_measure (visit lay cur nb qp)" by simp
  also have "\<dots> \<le> bfs_measure qp" using Cons.prems by (simp add: visit_measure)
  finally show ?case by simp
qed

lemma fold_visit_decreases:
  "bfs_measure (fold (visit lay cur) (neighbors cur) (queue, prev))
     < bfs_measure (cur # queue, prev)"
proof -
  have "bfs_measure (fold (visit lay cur) (neighbors cur) (queue, prev))
          \<le> bfs_measure (queue, prev)"
    by (rule fold_visit_measure [OF neighbors_in_grid])
  also have "\<dots> < bfs_measure (cur # queue, prev)" by (simp add: bfs_measure_def)
  finally show ?thesis .
qed

function bfs_loop :: "(pos \<times> cell) list \<Rightarrow> pos \<Rightarrow> pos list \<Rightarrow> prevmap \<Rightarrow> prevmap" where
  "bfs_loop lay goal [] prev = prev"
| "bfs_loop lay goal (cur # queue) prev =
     (if cur = goal then prev
      else case fold (visit lay cur) (neighbors cur) (queue, prev) of
             (queue', prev') \<Rightarrow> bfs_loop lay goal queue' prev')"
  by pat_completeness auto
termination
  apply (relation "measure (\<lambda>(lay, goal, queue, prev). bfs_measure (queue, prev))")
   apply simp
  apply (simp add: fold_visit_decreases)
  done

partial_function (option) backtrack :: "prevmap \<Rightarrow> pos option \<Rightarrow> pos list \<Rightarrow> (error + pos list) option" where
  "backtrack prev cur path =
     (case cur of
        None \<Rightarrow> Some (Inr path)
      | Some c \<Rightarrow>
          (case prev c of
             None \<Rightarrow> Some (Inl KeyError)
           | Some nxt \<Rightarrow> backtrack prev nxt (path @ [c])))"

declare backtrack.simps [code]

definition compute_route :: "Server \<Rightarrow> pos \<Rightarrow> pos \<Rightarrow> (error + pos list) option" where
  "compute_route srv start goal =
     (let prev = bfs_loop (layout (grid srv)) goal [start] [start \<mapsto> None]
      in if prev goal = None then Some (Inr [start])
         else map_option (map_sum id rev) (backtrack prev (Some goal) []))"

text \<open>The 5 by 5 layout without blocks, for the concrete runs below.\<close>

definition grid5 :: "(pos \<times> cell) list" where
  "grid5 = concat (map (\<lambda>y. map (\<lambda>x. ((int x, int y), CELL_ROAD)) [0..<5]) [0..<5])"

definition srv5 :: Server where
  "srv5 = Server_init \<lparr>layout = grid5, queues = Map.empty, incidents = Map.empty, generators = []\<rparr> []"


subsection \<open>Routes and distances\<close>

text \<open>
  \<open>edge lay u v\<close>: the search may step from \<open>u\<close> to \<open>v\<close>, a neighbour inside the grid that
  is not Blocked. A route is a non-empty list of positions with an edge between each two
  consecutive ones; only its first position is not the target of an edge.
  \<open>reach lay start n v\<close>: some route of \<open>n\<close> moves leads from \<open>start\<close> to \<open>v\<close>;
  \<open>dist_is lay start v n\<close>: \<open>n\<close> is the least such number.
\<close>

definition edge :: "(pos \<times> cell) list \<Rightarrow> pos \<Rightarrow> pos \<Rightarrow> bool" where
  "edge lay u v \<longleftrightarrow> v \<in> set (neighbors u) \<and> map_of lay v \<noteq> Some CELL_BLOCK"

fun is_route :: "(pos \<times> cell) list \<Rightarrow> pos list \<Rightarrow> bool" where
  "is_route lay [] = False"
| "is_route lay [a] = True"
| "is_route lay (a # b # r) = (edge lay a b \<and> is_route lay (b # r))"

inductive reach :: "(pos \<times> cell) list \<Rightarrow> pos \<Rightarrow> nat \<Rightarrow> pos \<Rightarrow> bool"
  for lay :: "(pos \<times> cell) list" and start :: pos where
  reach_0: "reach lay start 0 start"
| reach_Suc: "reach lay start n u \<Longrightarrow> edge lay u v \<Longrightarrow> reach lay start (Suc n) v"

inductive_cases reach_0E: "reach lay start 0 v"
inductive_cases reach_SucE: "reach lay start (Suc n) v"

definition dist_is :: "(pos \<times> cell) list \<Rightarrow> pos \<Rightarrow> pos \<Rightarrow> nat \<Rightarrow> bool" where
  "dist_is lay start v n \<longleftrightarrow> reach lay start n v \<and> (\<forall>m<n. \<not> reach lay start m v)"

lemma dist_is_unique:
  assumes "dist_is lay start v n" and "dist_is lay start v m"
  shows "n = m"
proof (rule ccontr)
  assume "n \<noteq> m"
  then consider "n < m" | "m < n" by linarith
  then show False
  proof cases
    case 1
    with assms show False unfolding dist_is_def by blast
  next
    case 2
    with assms show False unfolding dist_is_def by blast
  qed
qed

lemma reach_dist: "reach lay start n v \<Longrightarrow> \<exists>m\<le>n. dist_is lay start v m"
proof -
  assume r: "reach lay start n v"
  let ?m = "LEAST m. reach lay start m v"
  from r have "reach lay start ?m v" by (rule LeastI)
  moreover have "\<forall>j<?m. \<not> reach lay start j v" using not_less_Least by blast
  moreover from r have "?m \<le> n" by (rule Least_le)
  ultimately show ?thesis unfolding dist_is_def by blast
qed

lemma dist_is_0: "dist_is lay start v 0 \<longleftrightarrow> v = start"
  unfolding dist_is_def by (auto elim: reach_0E intro: reach_0)

lemma dist_pred:
  assumes "dist_is lay start v (Suc n)"
  shows "\<exists>u. dist_is lay start u n \<and> edge lay u v"
proof -
  from assms have r: "reach lay start (Suc n) v"
    and least: "\<forall>m<Suc n. \<not> reach lay start m v"
    unfolding dist_is_def by auto
  from r obtain u where u: "reach lay start n u" "edge lay u v"
    by (auto elim: reach_SucE)
  have "\<not> reach lay start m u" if "m < n" for m
  proof
    assume "reach lay start m u"
    then have "reach lay start (Suc m) v" using u(2) by (rule reach_Suc)
    with least that show False by auto
  qed
  with u show ?thesis unfolding dist_is_def by blast
qed

lemma dist_succ:
  assumes "dist_is lay start u n" and "edge lay u v"
  shows "\<exists>m\<le>Suc n. dist_is lay start v m"
proof -
  from assms have "reach lay start (Suc n) v"
    unfolding dist_is_def by (blast intro: reach_Suc)
  then show ?thesis by (rule reach_dist)
qed

subsection \<open>The loop over the neighbours\<close>

subsection \<open>One pass of the search loop\<close>

text \<open>
  The loop over the neighbours of \<open>cur\<close> appends the neighbours that are neither
  discovered nor Blocked to the queue, in the order of \<open>neighbors\<close>, and records \<open>cur\<close> as
  the predecessor of each.
\<close>

definition fresh :: "(pos \<times> cell) list \<Rightarrow> prevmap \<Rightarrow> pos \<Rightarrow> bool" where
  "fresh lay prev nb \<longleftrightarrow> prev nb = None \<and> map_of lay nb \<noteq> Some CELL_BLOCK"

definition discover :: "pos \<Rightarrow> pos list \<Rightarrow> prevmap \<Rightarrow> prevmap" where
  "discover cur new prev = (\<lambda>x. if x \<in> set new then Some (Some cur) else prev x)"

lemma fold_visit:
  "distinct ns \<Longrightarrow>
   fold (visit lay cur) ns (q, p) =
     (q @ filter (fresh lay p) ns, discover cur (filter (fresh lay p) ns) p)"
proof (induction ns arbitrary: q p)
  case Nil
  show ?case by (simp add: discover_def)
next
  case (Cons nb ns)
  then have d: "distinct ns" and nin: "nb \<notin> set ns" by simp_all
  show ?case
  proof (cases "fresh lay p nb")
    case True
    let ?p' = "p(nb \<mapsto> Some cur)"
    have v: "visit lay cur nb (q, p) = (q @ [nb], ?p')"
      using True by (simp add: visit_def fresh_def)
    have f: "filter (fresh lay ?p') ns = filter (fresh lay p) ns"
      using nin by (intro filter_cong) (auto simp: fresh_def)
    have dd: "discover cur (filter (fresh lay p) ns) ?p'
            = discover cur (nb # filter (fresh lay p) ns) p"
      by (auto simp: discover_def fun_eq_iff)
    have "fold (visit lay cur) (nb # ns) (q, p) = fold (visit lay cur) ns (q @ [nb], ?p')"
      by (simp only: fold_simps v comp_apply)
    also have "\<dots> = ((q @ [nb]) @ filter (fresh lay ?p') ns,
                      discover cur (filter (fresh lay ?p') ns) ?p')"
      by (rule Cons.IH [OF d])
    also have "\<dots> = (q @ nb # filter (fresh lay p) ns,
                      discover cur (nb # filter (fresh lay p) ns) p)"
      by (simp only: f dd append_assoc append_Cons append_Nil)
    also have "nb # filter (fresh lay p) ns = filter (fresh lay p) (nb # ns)"
      using True by simp
    finally show ?thesis .
  next
    case False
    then have v: "visit lay cur nb (q, p) = (q, p)"
      by (auto simp: visit_def fresh_def)
    have "fold (visit lay cur) (nb # ns) (q, p) = fold (visit lay cur) ns (q, p)"
      by (simp only: fold_simps v comp_apply)
    also have "\<dots> = (q @ filter (fresh lay p) ns, discover cur (filter (fresh lay p) ns) p)"
      by (rule Cons.IH [OF d])
    also have "filter (fresh lay p) ns = filter (fresh lay p) (nb # ns)"
      using False by simp
    finally show ?thesis .
  qed
qed

lemma distinct_neighbors: "distinct (neighbors c)"
  unfolding neighbors_def by (intro distinct_filter) simp

lemma neighbors_iff:
  "v \<in> set (neighbors u) \<longleftrightarrow>
     within_grid (fst v) (snd v) \<and>
     (v = (fst u + 1, snd u) \<or> v = (fst u - 1, snd u)
      \<or> v = (fst u, snd u + 1) \<or> v = (fst u, snd u - 1))"
  by (auto simp: neighbors_def)

lemma bfs_loop_step:
  "cur \<noteq> goal \<Longrightarrow>
   bfs_loop lay goal (cur # queue) prev =
     bfs_loop lay goal (queue @ filter (fresh lay prev) (neighbors cur))
       (discover cur (filter (fresh lay prev) (neighbors cur)) prev)"
  by (simp add: fold_visit [OF distinct_neighbors])

subsection \<open>The invariant of the search\<close>

text \<open>
  \<open>tree\<close>: every discovered cell other than \<open>start\<close> has a discovered predecessor one
  move closer to \<open>start\<close>. \<open>lvl\<close>: the queue is a run \<open>A\<close> of cells at distance \<open>k\<close>
  followed by a run \<open>B\<close> of cells at distance \<open>k + 1\<close>; every cell at distance at most \<open>k\<close>
  is discovered, no discovered cell is farther than \<open>k + 1\<close>, and every edge out of a
  discovered cell that has left the queue leads to a discovered cell.
\<close>

definition tree :: "(pos \<times> cell) list \<Rightarrow> pos \<Rightarrow> prevmap \<Rightarrow> bool" where
  "tree lay start prev \<longleftrightarrow>
     prev start = Some None
     \<and> (\<forall>v. prev v = Some None \<longrightarrow> v = start)
     \<and> (\<forall>v u. prev v = Some (Some u) \<longrightarrow>
           prev u \<noteq> None \<and> edge lay u v
           \<and> (\<exists>n. dist_is lay start u n \<and> dist_is lay start v (Suc n)))"

definition lvl :: "(pos \<times> cell) list \<Rightarrow> pos \<Rightarrow> nat \<Rightarrow> pos list \<Rightarrow> pos list \<Rightarrow> prevmap \<Rightarrow> bool" where
  "lvl lay start k A B prev \<longleftrightarrow>
     (\<forall>v \<in> set A. dist_is lay start v k)
     \<and> (\<forall>v \<in> set B. dist_is lay start v (Suc k))
     \<and> (\<forall>v \<in> set (A @ B). prev v \<noteq> None)
     \<and> (\<forall>v n. dist_is lay start v n \<and> n \<le> k \<longrightarrow> prev v \<noteq> None)
     \<and> (\<forall>v n. dist_is lay start v n \<and> prev v \<noteq> None \<longrightarrow> n \<le> Suc k)
     \<and> (\<forall>v. dist_is lay start v (Suc k) \<and> prev v \<noteq> None \<longrightarrow> v \<in> set B)
     \<and> (\<forall>v. prev v \<noteq> None \<and> v \<notin> set (A @ B) \<longrightarrow> (\<forall>w. edge lay v w \<longrightarrow> prev w \<noteq> None))"

definition bfs_inv :: "(pos \<times> cell) list \<Rightarrow> pos \<Rightarrow> pos list \<Rightarrow> prevmap \<Rightarrow> bool" where
  "bfs_inv lay start q prev \<longleftrightarrow>
     tree lay start prev \<and> (\<exists>k A B. q = A @ B \<and> lvl lay start k A B prev)"

lemma dist_is_start: "dist_is lay start start n \<longleftrightarrow> n = 0"
  using dist_is_unique [of lay start start n 0] by (auto simp: dist_is_0)

lemma lvl_initial: "lvl lay start 0 [start] [] [start \<mapsto> None]"
  unfolding lvl_def
  by (simp add: dist_is_0 dist_is_start split: if_splits)

lemma tree_initial: "tree lay start [start \<mapsto> None]"
  unfolding tree_def by (auto split: if_splits)

lemma lvlD:
  assumes "lvl lay start k A B prev"
  shows "\<And>v. v \<in> set A \<Longrightarrow> dist_is lay start v k"
    and "\<And>v. v \<in> set B \<Longrightarrow> dist_is lay start v (Suc k)"
    and "\<And>v. v \<in> set A \<or> v \<in> set B \<Longrightarrow> prev v \<noteq> None"
    and "\<And>v n. dist_is lay start v n \<Longrightarrow> n \<le> k \<Longrightarrow> prev v \<noteq> None"
    and "\<And>v n. dist_is lay start v n \<Longrightarrow> prev v \<noteq> None \<Longrightarrow> n \<le> Suc k"
    and "\<And>v. dist_is lay start v (Suc k) \<Longrightarrow> prev v \<noteq> None \<Longrightarrow> v \<in> set B"
    and "\<And>v w. prev v \<noteq> None \<Longrightarrow> v \<notin> set A \<Longrightarrow> v \<notin> set B \<Longrightarrow> edge lay v w
           \<Longrightarrow> prev w \<noteq> None"
proof -
  from assms have
    1: "\<forall>v \<in> set A. dist_is lay start v k" and
    2: "\<forall>v \<in> set B. dist_is lay start v (Suc k)" and
    3: "\<forall>v \<in> set (A @ B). prev v \<noteq> None" and
    4: "\<forall>v n. dist_is lay start v n \<and> n \<le> k \<longrightarrow> prev v \<noteq> None" and
    5: "\<forall>v n. dist_is lay start v n \<and> prev v \<noteq> None \<longrightarrow> n \<le> Suc k" and
    6: "\<forall>v. dist_is lay start v (Suc k) \<and> prev v \<noteq> None \<longrightarrow> v \<in> set B" and
    7: "\<forall>v. prev v \<noteq> None \<and> v \<notin> set (A @ B) \<longrightarrow> (\<forall>w. edge lay v w \<longrightarrow> prev w \<noteq> None)"
    unfolding lvl_def by blast+
  show "\<And>v. v \<in> set A \<Longrightarrow> dist_is lay start v k" using 1 by blast
  show "\<And>v. v \<in> set B \<Longrightarrow> dist_is lay start v (Suc k)" using 2 by blast
  show "\<And>v. v \<in> set A \<or> v \<in> set B \<Longrightarrow> prev v \<noteq> None"
    using 3 unfolding set_append by blast
  show "\<And>v n. dist_is lay start v n \<Longrightarrow> n \<le> k \<Longrightarrow> prev v \<noteq> None" using 4 by blast
  show "\<And>v n. dist_is lay start v n \<Longrightarrow> prev v \<noteq> None \<Longrightarrow> n \<le> Suc k" using 5 by blast
  show "\<And>v. dist_is lay start v (Suc k) \<Longrightarrow> prev v \<noteq> None \<Longrightarrow> v \<in> set B" using 6 by blast
  show "\<And>v w. prev v \<noteq> None \<Longrightarrow> v \<notin> set A \<Longrightarrow> v \<notin> set B \<Longrightarrow> edge lay v w
           \<Longrightarrow> prev w \<noteq> None"
    using 7 unfolding set_append by blast
qed

lemma lvlI:
  assumes "\<And>v. v \<in> set A \<Longrightarrow> dist_is lay start v k"
    and "\<And>v. v \<in> set B \<Longrightarrow> dist_is lay start v (Suc k)"
    and "\<And>v. v \<in> set A \<or> v \<in> set B \<Longrightarrow> prev v \<noteq> None"
    and "\<And>v n. dist_is lay start v n \<Longrightarrow> n \<le> k \<Longrightarrow> prev v \<noteq> None"
    and "\<And>v n. dist_is lay start v n \<Longrightarrow> prev v \<noteq> None \<Longrightarrow> n \<le> Suc k"
    and "\<And>v. dist_is lay start v (Suc k) \<Longrightarrow> prev v \<noteq> None \<Longrightarrow> v \<in> set B"
    and "\<And>v w. prev v \<noteq> None \<Longrightarrow> v \<notin> set A \<Longrightarrow> v \<notin> set B \<Longrightarrow> edge lay v w
           \<Longrightarrow> prev w \<noteq> None"
  shows "lvl lay start k A B prev"
  unfolding lvl_def set_append
proof (intro conjI)
  show "\<forall>v\<in>set A. dist_is lay start v k" using assms(1) by blast
  show "\<forall>v\<in>set B. dist_is lay start v (Suc k)" using assms(2) by blast
  show "\<forall>v\<in>set A \<union> set B. prev v \<noteq> None" using assms(3) by blast
  show "\<forall>v n. dist_is lay start v n \<and> n \<le> k \<longrightarrow> prev v \<noteq> None" using assms(4) by blast
  show "\<forall>v n. dist_is lay start v n \<and> prev v \<noteq> None \<longrightarrow> n \<le> Suc k" using assms(5) by blast
  show "\<forall>v. dist_is lay start v (Suc k) \<and> prev v \<noteq> None \<longrightarrow> v \<in> set B"
    using assms(6) by blast
  show "\<forall>v. prev v \<noteq> None \<and> v \<notin> set A \<union> set B \<longrightarrow> (\<forall>w. edge lay v w \<longrightarrow> prev w \<noteq> None)"
    using assms(7) by blast
qed

lemma lvl_relevel:
  assumes l: "lvl lay start k [] B prev"
  shows "lvl lay start (Suc k) B [] prev"
proof (rule lvlI)
  note D = lvlD [OF l]
  show "dist_is lay start v (Suc k)" if "v \<in> set B" for v
    using that by (rule D(2))
  show "dist_is lay start v (Suc (Suc k))" if "v \<in> set []" for v
    using that by simp
  show "prev v \<noteq> None" if "v \<in> set B \<or> v \<in> set []" for v
    using that D(3) [of v] by simp
  show "prev v \<noteq> None" if dv: "dist_is lay start v n" and n: "n \<le> Suc k" for v n
  proof (cases "n \<le> k")
    case True
    with dv show ?thesis by (rule D(4))
  next
    case False
    with n have n': "n = Suc k" by simp
    with dv dist_pred obtain u where u: "dist_is lay start u k" "edge lay u v" by blast
    have pu: "prev u \<noteq> None" using u(1) by (rule D(4)) simp
    have nb: "u \<notin> set B"
    proof
      assume "u \<in> set B"
      then have "dist_is lay start u (Suc k)" by (rule D(2))
      with u(1) have "k = Suc k" by (rule dist_is_unique)
      then show False by simp
    qed
    show ?thesis using pu _ nb u(2) by (rule D(7)) simp
  qed
  show "n \<le> Suc (Suc k)" if "dist_is lay start v n" "prev v \<noteq> None" for v n
    using D(5) [OF that] by simp
  show "v \<in> set []" if "dist_is lay start v (Suc (Suc k))" "prev v \<noteq> None" for v
    using D(5) [OF that] by simp
  show "prev w \<noteq> None"
    if "prev v \<noteq> None" "v \<notin> set B" "v \<notin> set []" "edge lay v w" for v w
    using that(1) _ that(2) that(4) by (rule D(7)) simp
qed

lemma treeD:
  assumes "tree lay start prev"
  shows "prev start = Some None"
    and "\<And>v. prev v = Some None \<Longrightarrow> v = start"
    and "\<And>v u. prev v = Some (Some u) \<Longrightarrow> prev u \<noteq> None"
    and "\<And>v u. prev v = Some (Some u) \<Longrightarrow> edge lay u v"
    and "\<And>v u. prev v = Some (Some u) \<Longrightarrow>
           \<exists>n. dist_is lay start u n \<and> dist_is lay start v (Suc n)"
proof -
  from assms have
    1: "prev start = Some None" and
    2: "\<forall>v. prev v = Some None \<longrightarrow> v = start" and
    3: "\<forall>v u. prev v = Some (Some u) \<longrightarrow>
           prev u \<noteq> None \<and> edge lay u v
           \<and> (\<exists>n. dist_is lay start u n \<and> dist_is lay start v (Suc n))"
    unfolding tree_def by blast+
  show "prev start = Some None" by (rule 1)
  show "\<And>v. prev v = Some None \<Longrightarrow> v = start" using 2 by blast
  show "\<And>v u. prev v = Some (Some u) \<Longrightarrow> prev u \<noteq> None" using 3 by blast
  show "\<And>v u. prev v = Some (Some u) \<Longrightarrow> edge lay u v" using 3 by blast
  show "\<And>v u. prev v = Some (Some u) \<Longrightarrow>
           \<exists>n. dist_is lay start u n \<and> dist_is lay start v (Suc n)" using 3 by blast
qed

lemma treeI:
  assumes "prev start = Some None"
    and "\<And>v. prev v = Some None \<Longrightarrow> v = start"
    and "\<And>v u. prev v = Some (Some u) \<Longrightarrow> prev u \<noteq> None"
    and "\<And>v u. prev v = Some (Some u) \<Longrightarrow> edge lay u v"
    and "\<And>v u. prev v = Some (Some u) \<Longrightarrow>
           \<exists>n. dist_is lay start u n \<and> dist_is lay start v (Suc n)"
  shows "tree lay start prev"
  unfolding tree_def
proof (intro conjI)
  show "prev start = Some None" by (rule assms(1))
  show "\<forall>v. prev v = Some None \<longrightarrow> v = start" using assms(2) by blast
  show "\<forall>v u. prev v = Some (Some u) \<longrightarrow>
           prev u \<noteq> None \<and> edge lay u v
           \<and> (\<exists>n. dist_is lay start u n \<and> dist_is lay start v (Suc n))"
    using assms(3,4,5) by blast
qed

lemma tree_has_dist:
  assumes t: "tree lay start prev" and p: "prev v \<noteq> None"
  shows "\<exists>n. dist_is lay start v n"
proof -
  from p obtain x where x: "prev v = Some x" by blast
  show ?thesis
  proof (cases x)
    case None
    with x have "v = start" using treeD(2) [OF t] by blast
    then show ?thesis using dist_is_0 by blast
  next
    case (Some u)
    with x treeD(5) [OF t] show ?thesis by blast
  qed
qed

lemma discover_new: "v \<in> set new \<Longrightarrow> discover cur new prev v = Some (Some cur)"
  by (simp add: discover_def)

lemma discover_old: "v \<notin> set new \<Longrightarrow> discover cur new prev v = prev v"
  by (simp add: discover_def)

lemma discover_keeps: "prev v \<noteq> None \<Longrightarrow> discover cur new prev v \<noteq> None"
  by (simp add: discover_def)

lemma fresh_new:
  "v \<in> set (filter (fresh lay prev) (neighbors cur))
     \<longleftrightarrow> v \<in> set (neighbors cur) \<and> prev v = None \<and> map_of lay v \<noteq> Some CELL_BLOCK"
  by (auto simp: fresh_def)

lemma new_dist:
  assumes l: "lvl lay start k (cur # A) B prev"
    and v: "v \<in> set (neighbors cur)" "prev v = None" "map_of lay v \<noteq> Some CELL_BLOCK"
  shows "dist_is lay start v (Suc k)"
proof -
  note D = lvlD [OF l]
  have dc: "dist_is lay start cur k" by (rule D(1)) simp
  then have "reach lay start k cur" by (simp add: dist_is_def)
  moreover have e: "edge lay cur v" using v by (simp add: edge_def)
  ultimately have "reach lay start (Suc k) v" by (rule reach_Suc)
  then obtain m where m: "m \<le> Suc k" "dist_is lay start v m"
    using reach_dist by blast
  have "\<not> m \<le> k"
  proof
    assume "m \<le> k"
    with m(2) have "prev v \<noteq> None" by (rule D(4))
    with v(2) show False by simp
  qed
  with m(1) have "m = Suc k" by simp
  with m(2) show ?thesis by simp
qed

lemma lvl_step:
  assumes l: "lvl lay start k (cur # A) B prev"
  defines "new \<equiv> filter (fresh lay prev) (neighbors cur)"
  shows "lvl lay start k A (B @ new) (discover cur new prev)"
proof (rule lvlI)
  note D = lvlD [OF l]
  have newD: "v \<in> set (neighbors cur) \<and> prev v = None \<and> map_of lay v \<noteq> Some CELL_BLOCK"
    if "v \<in> set new" for v
    using that unfolding new_def fresh_new .
  have newI: "v \<in> set new"
    if "v \<in> set (neighbors cur)" "prev v = None" "map_of lay v \<noteq> Some CELL_BLOCK" for v
    using that unfolding new_def fresh_new by blast
  have nd: "dist_is lay start v (Suc k)" if "v \<in> set new" for v
    using newD [OF that] new_dist [OF l] by blast
  have old: "prev v \<noteq> None" if "discover cur new prev v \<noteq> None" "v \<notin> set new" for v
    using that by (simp add: discover_old)
  show "dist_is lay start v k" if "v \<in> set A" for v
    by (rule D(1)) (use that in simp)
  show "dist_is lay start v (Suc k)" if "v \<in> set (B @ new)" for v
  proof (cases "v \<in> set new")
    case True
    then show ?thesis by (rule nd)
  next
    case False
    with that have "v \<in> set B" by simp
    then show ?thesis by (rule D(2))
  qed
  show "discover cur new prev v \<noteq> None" if "v \<in> set A \<or> v \<in> set (B @ new)" for v
  proof (cases "v \<in> set new")
    case True
    then show ?thesis by (simp add: discover_new)
  next
    case False
    with that have "v \<in> set (cur # A) \<or> v \<in> set B" by auto
    then have "prev v \<noteq> None" by (rule D(3))
    then show ?thesis by (rule discover_keeps)
  qed
  show "discover cur new prev v \<noteq> None" if "dist_is lay start v n" "n \<le> k" for v n
    using D(4) [OF that] by (rule discover_keeps)
  show "n \<le> Suc k" if dv: "dist_is lay start v n" and pv: "discover cur new prev v \<noteq> None" for v n
  proof (cases "v \<in> set new")
    case True
    then have "dist_is lay start v (Suc k)" by (rule nd)
    with dv have "n = Suc k" by (rule dist_is_unique)
    then show ?thesis by simp
  next
    case False
    with pv have "prev v \<noteq> None" by (rule old)
    with dv show ?thesis by (rule D(5))
  qed
  show "v \<in> set (B @ new)"
    if dv: "dist_is lay start v (Suc k)" and pv: "discover cur new prev v \<noteq> None" for v
  proof (cases "v \<in> set new")
    case True
    then show ?thesis by simp
  next
    case False
    with pv have "prev v \<noteq> None" by (rule old)
    with dv have "v \<in> set B" by (rule D(6))
    then show ?thesis by simp
  qed
  show "discover cur new prev w \<noteq> None"
    if pv: "discover cur new prev v \<noteq> None" and va: "v \<notin> set A" and vb: "v \<notin> set (B @ new)"
      and e: "edge lay v w" for v w
  proof -
    from vb have vn: "v \<notin> set new" and vB: "v \<notin> set B" by simp_all
    from pv vn have p: "prev v \<noteq> None" by (rule old)
    show ?thesis
    proof (cases "v = cur")
      case True
      with e have w: "w \<in> set (neighbors cur)" "map_of lay w \<noteq> Some CELL_BLOCK"
        by (simp_all add: edge_def)
      show ?thesis
      proof (cases "prev w = None")
        case True
        with w have "w \<in> set new" by (intro newI)
        then show ?thesis by (simp add: discover_new)
      next
        case False
        then show ?thesis by (rule discover_keeps)
      qed
    next
      case False
      with va have "v \<notin> set (cur # A)" by simp
      with p have "prev w \<noteq> None" using vB e by (rule D(7))
      then show ?thesis by (rule discover_keeps)
    qed
  qed
qed

lemma tree_step:
  assumes t: "tree lay start prev" and l: "lvl lay start k (cur # A) B prev"
  defines "new \<equiv> filter (fresh lay prev) (neighbors cur)"
  shows "tree lay start (discover cur new prev)"
proof (rule treeI)
  note T = treeD [OF t]
  note D = lvlD [OF l]
  have newD: "v \<in> set (neighbors cur) \<and> prev v = None \<and> map_of lay v \<noteq> Some CELL_BLOCK"
    if "v \<in> set new" for v
    using that unfolding new_def fresh_new .
  have sn: "start \<notin> set new"
  proof
    assume "start \<in> set new"
    then have "prev start = None" using newD by blast
    with T(1) show False by simp
  qed
  have pc: "prev cur \<noteq> None" by (rule D(3)) simp
  have dc: "dist_is lay start cur k" by (rule D(1)) simp
  show "discover cur new prev start = Some None"
    using sn T(1) by (simp add: discover_old)
  show "v = start" if "discover cur new prev v = Some None" for v
  proof (cases "v \<in> set new")
    case True
    with that show ?thesis by (simp add: discover_new)
  next
    case False
    with that have "prev v = Some None" by (simp add: discover_old)
    then show ?thesis by (rule T(2))
  qed
  show "discover cur new prev u \<noteq> None" if "discover cur new prev v = Some (Some u)" for v u
  proof (cases "v \<in> set new")
    case True
    with that have "u = cur" by (simp add: discover_new)
    with pc show ?thesis by (simp add: discover_keeps)
  next
    case False
    with that have "prev v = Some (Some u)" by (simp add: discover_old)
    then have "prev u \<noteq> None" by (rule T(3))
    then show ?thesis by (rule discover_keeps)
  qed
  show "edge lay u v" if "discover cur new prev v = Some (Some u)" for v u
  proof (cases "v \<in> set new")
    case True
    with that have "u = cur" by (simp add: discover_new)
    with newD [OF True] show ?thesis by (simp add: edge_def)
  next
    case False
    with that have "prev v = Some (Some u)" by (simp add: discover_old)
    then show ?thesis by (rule T(4))
  qed
  show "\<exists>n. dist_is lay start u n \<and> dist_is lay start v (Suc n)"
    if "discover cur new prev v = Some (Some u)" for v u
  proof (cases "v \<in> set new")
    case True
    with that have u: "u = cur" by (simp add: discover_new)
    from newD [OF True] have "dist_is lay start v (Suc k)"
      using new_dist [OF l] by blast
    with dc u show ?thesis by blast
  next
    case False
    with that have "prev v = Some (Some u)" by (simp add: discover_old)
    then show ?thesis by (rule T(5))
  qed
qed

lemma bfs_inv_step:
  assumes i: "bfs_inv lay start (cur # queue) prev"
  shows "bfs_inv lay start (queue @ filter (fresh lay prev) (neighbors cur))
           (discover cur (filter (fresh lay prev) (neighbors cur)) prev)"
proof -
  from i have t: "tree lay start prev"
    and "\<exists>k A B. cur # queue = A @ B \<and> lvl lay start k A B prev"
    unfolding bfs_inv_def by blast+
  then obtain k A B where q: "cur # queue = A @ B" and l: "lvl lay start k A B prev"
    by blast
  have "\<exists>k' A' B'. queue = A' @ B' \<and> lvl lay start k' (cur # A') B' prev"
  proof (cases A)
    case Nil
    with q have B: "B = cur # queue" by simp
    from l Nil have "lvl lay start (Suc k) B [] prev" using lvl_relevel by blast
    with B have "lvl lay start (Suc k) (cur # queue) [] prev" by simp
    moreover have "queue = queue @ []" by simp
    ultimately show ?thesis by blast
  next
    case (Cons a A')
    with q have "a = cur" "queue = A' @ B" by simp_all
    with l Cons show ?thesis by blast
  qed
  then obtain k' A' B' where q': "queue = A' @ B'"
    and l': "lvl lay start k' (cur # A') B' prev" by blast
  let ?new = "filter (fresh lay prev) (neighbors cur)"
  have "lvl lay start k' A' (B' @ ?new) (discover cur ?new prev)"
    using l' by (rule lvl_step)
  moreover have "queue @ ?new = A' @ (B' @ ?new)" using q' by simp
  moreover have "tree lay start (discover cur ?new prev)"
    using t l' by (rule tree_step)
  ultimately show ?thesis unfolding bfs_inv_def by blast
qed

lemma bfs_inv_initial: "bfs_inv lay start [start] [start \<mapsto> None]"
proof -
  have "[start] = [start] @ []" by simp
  with lvl_initial [of lay start] tree_initial [of lay start] show ?thesis
    unfolding bfs_inv_def by blast
qed

lemma bfs_inv_head:
  assumes "bfs_inv lay start (cur # queue) prev"
  shows "prev cur \<noteq> None"
proof -
  from assms obtain k A B where q: "cur # queue = A @ B" and l: "lvl lay start k A B prev"
    unfolding bfs_inv_def by blast
  have "cur \<in> set (A @ B)" using q [symmetric] by simp
  then have "cur \<in> set A \<or> cur \<in> set B" by simp
  then show ?thesis by (rule lvlD(3) [OF l])
qed

lemma bfs_inv_closed:
  assumes i: "bfs_inv lay start [] prev" and r: "reach lay start n v"
  shows "prev v \<noteq> None"
proof -
  from i obtain k A B where q: "[] = A @ B" and l: "lvl lay start k A B prev"
    and t: "tree lay start prev"
    unfolding bfs_inv_def by blast
  from q have e: "A = []" "B = []" by simp_all
  note D = lvlD [OF l]
  from r show ?thesis
  proof (induction rule: reach.induct)
    case reach_0
    show ?case using treeD(1) [OF t] by simp
  next
    case (reach_Suc n u v)
    from reach_Suc.IH have "prev u \<noteq> None" .
    then show ?case using _ _ reach_Suc.hyps(2)
      by (rule D(7)) (simp_all add: e)
  qed
qed

definition bfs_post :: "(pos \<times> cell) list \<Rightarrow> pos \<Rightarrow> pos \<Rightarrow> prevmap \<Rightarrow> prevmap \<Rightarrow> bool" where
  "bfs_post lay start goal prev P \<longleftrightarrow>
     tree lay start P
     \<and> ((\<exists>n. reach lay start n goal) \<longrightarrow> P goal \<noteq> None)
     \<and> (\<forall>v. prev v \<noteq> None \<longrightarrow> P v = prev v)"

lemma bfs_loop_correct:
  "bfs_inv lay start q prev \<Longrightarrow> bfs_post lay start goal prev (bfs_loop lay goal q prev)"
proof (induction "bfs_measure (q, prev)" arbitrary: q prev rule: less_induct)
  case less
  show ?case
  proof (cases q)
    case Nil
    from less.prems Nil have i: "bfs_inv lay start [] prev" by simp
    then have t: "tree lay start prev" unfolding bfs_inv_def by blast
    have "(\<exists>n. reach lay start n goal) \<longrightarrow> prev goal \<noteq> None"
      using bfs_inv_closed [OF i] by blast
    with t Nil show ?thesis unfolding bfs_post_def by simp
  next
    case (Cons cur queue)
    from less.prems Cons have i: "bfs_inv lay start (cur # queue) prev" by simp
    then have t: "tree lay start prev" unfolding bfs_inv_def by blast
    show ?thesis
    proof (cases "cur = goal")
      case True
      have "prev goal \<noteq> None" using bfs_inv_head [OF i] True by simp
      with t Cons True show ?thesis unfolding bfs_post_def by simp
    next
      case False
      let ?new = "filter (fresh lay prev) (neighbors cur)"
      let ?q = "queue @ ?new"
      let ?p = "discover cur ?new prev"
      have step: "bfs_loop lay goal q prev = bfs_loop lay goal ?q ?p"
        unfolding Cons using False by (rule bfs_loop_step)
      have "bfs_measure (fold (visit lay cur) (neighbors cur) (queue, prev))
              < bfs_measure (cur # queue, prev)" by (rule fold_visit_decreases)
      then have m: "bfs_measure (?q, ?p) < bfs_measure (q, prev)"
        unfolding Cons fold_visit [OF distinct_neighbors] .
      have i': "bfs_inv lay start ?q ?p" using i by (rule bfs_inv_step)
      have post: "bfs_post lay start goal ?p (bfs_loop lay goal ?q ?p)"
        using m i' by (rule less.hyps)
      have keep: "bfs_loop lay goal ?q ?p v = prev v" if "prev v \<noteq> None" for v
      proof -
        from that have "?p v \<noteq> None" by (rule discover_keeps)
        with post have "bfs_loop lay goal ?q ?p v = ?p v" unfolding bfs_post_def by blast
        also have "?p v = prev v" using that by (simp add: discover_old fresh_def)
        finally show ?thesis .
      qed
      from post keep show ?thesis unfolding step bfs_post_def by blast
    qed
  qed
qed


subsection \<open>The path read back from the predecessors\<close>

lemma is_route_nonempty: "is_route lay p \<Longrightarrow> p \<noteq> []"
  by (cases p) simp_all

lemma is_route_snoc_iff:
  "xs \<noteq> [] \<Longrightarrow> is_route lay (xs @ [x]) \<longleftrightarrow> is_route lay xs \<and> edge lay (last xs) x"
proof (induction lay xs rule: is_route.induct)
  case (1 lay)
  then show ?case by simp
next
  case (2 lay a)
  show ?case by simp
next
  case (3 lay a b r)
  then show ?case by auto
qed

lemma is_route_snoc:
  "is_route lay p \<Longrightarrow> edge lay (last p) v \<Longrightarrow> is_route lay (p @ [v])"
  using is_route_snoc_iff [of p lay v] is_route_nonempty [of lay p] by blast


lemma route_reach: "is_route lay p \<Longrightarrow> reach lay (hd p) (length p - 1) (last p)"
proof (induction p rule: rev_induct)
  case Nil
  then show ?case by simp
next
  case (snoc x xs)
  show ?case
  proof (cases "xs = []")
    case True
    then show ?thesis by (simp add: reach_0)
  next
    case False
    with snoc.prems have r: "is_route lay xs" and e: "edge lay (last xs) x"
      by (simp_all add: is_route_snoc_iff)
    from r have "reach lay (hd xs) (length xs - 1) (last xs)" by (rule snoc.IH)
    then have "reach lay (hd xs) (Suc (length xs - 1)) x" using e by (rule reach_Suc)
    with False show ?thesis by simp
  qed
qed


lemma backtrack_tree:
  assumes t: "tree lay start P"
  shows "dist_is lay start v n \<Longrightarrow> P v \<noteq> None \<Longrightarrow>
     \<exists>r. backtrack P (Some v) acc = Some (Inr (acc @ r)) \<and> length r = Suc n
        \<and> is_route lay (rev r) \<and> hd (rev r) = start \<and> last (rev r) = v"
proof (induction n arbitrary: v acc)
  case 0
  then have v: "v = start" by (simp add: dist_is_0)
  have "backtrack P (Some start) acc = Some (Inr (acc @ [start]))"
    by (subst backtrack.simps, simp add: treeD(1) [OF t], subst backtrack.simps, simp)
  with v have "backtrack P (Some v) acc = Some (Inr (acc @ [start])) \<and> length [start] = Suc 0
        \<and> is_route lay (rev [start]) \<and> hd (rev [start]) = start \<and> last (rev [start]) = v"
    by simp
  then show ?case by blast
next
  case (Suc n)
  from Suc.prems(2) obtain x where x: "P v = Some x" by blast
  have "x \<noteq> None"
  proof
    assume "x = None"
    with x have "v = start" using treeD(2) [OF t] by blast
    with Suc.prems(1) show False by (simp add: dist_is_start)
  qed
  then obtain u where u: "P v = Some (Some u)" using x by blast
  have pu: "P u \<noteq> None" using u by (rule treeD(3) [OF t])
  have e: "edge lay u v" using u by (rule treeD(4) [OF t])
  from treeD(5) [OF t u] obtain m where m: "dist_is lay start u m" "dist_is lay start v (Suc m)"
    by blast
  from m(2) Suc.prems(1) have "Suc m = Suc n" by (rule dist_is_unique)
  with m(1) have du: "dist_is lay start u n" by simp
  from Suc.IH [OF du pu, of "acc @ [v]"] obtain r where
    r: "backtrack P (Some u) (acc @ [v]) = Some (Inr ((acc @ [v]) @ r))" "length r = Suc n"
      "is_route lay (rev r)" "hd (rev r) = start" "last (rev r) = u"
    by blast
  have b: "backtrack P (Some v) acc = Some (Inr (acc @ (v # r)))"
    by (subst backtrack.simps) (simp add: u r(1))
  have ne: "rev r \<noteq> []" using r(2) by auto
  have "is_route lay (rev r @ [v])" using r(3) e r(5) by (simp add: is_route_snoc)
  then have 1: "is_route lay (rev (v # r))" by simp
  have 2: "hd (rev (v # r)) = start" using ne r(4) by simp
  have 3: "last (rev (v # r)) = v" by simp
  have 4: "length (v # r) = Suc (Suc n)" using r(2) by simp
  from b 1 2 3 4 show ?case by blast
qed

lemma compute_route_cases:
  fixes srv :: Server
  defines "lay \<equiv> layout (grid srv)"
  shows "(\<not> (\<exists>n. reach lay start n goal) \<and> compute_route srv start goal = Some (Inr [start]))
    \<or> (\<exists>n path. dist_is lay start goal n \<and> compute_route srv start goal = Some (Inr path)
          \<and> length path = Suc n \<and> is_route lay path \<and> hd path = start \<and> last path = goal)"
proof -
  define P where "P = bfs_loop lay goal [start] [start \<mapsto> None]"
  have "bfs_post lay start goal [start \<mapsto> None] P"
    unfolding P_def using bfs_inv_initial by (rule bfs_loop_correct)
  then have t: "tree lay start P"
    and g: "(\<exists>n. reach lay start n goal) \<longrightarrow> P goal \<noteq> None"
    unfolding bfs_post_def by blast+
  have cr: "compute_route srv start goal =
      (if P goal = None then Some (Inr [start])
       else map_option (map_sum id rev) (backtrack P (Some goal) []))"
    unfolding compute_route_def P_def lay_def Let_def by (rule refl)
  show ?thesis
  proof (cases "P goal = None")
    case True
    with g have "\<not> (\<exists>n. reach lay start n goal)" by blast
    moreover have "compute_route srv start goal = Some (Inr [start])"
      using True by (simp add: cr)
    ultimately show ?thesis by blast
  next
    case False
    with t obtain n where n: "dist_is lay start goal n" using tree_has_dist by blast
    from backtrack_tree [OF t n False, of "[]"] obtain r where
      r: "backtrack P (Some goal) [] = Some (Inr r)" "length r = Suc n"
        "is_route lay (rev r)" "hd (rev r) = start" "last (rev r) = goal"
      by auto
    have "compute_route srv start goal
            = map_option (map_sum id rev) (backtrack P (Some goal) [])"
      unfolding cr using False by (rule if_not_P)
    then have "compute_route srv start goal = Some (Inr (rev r))"
      by (simp add: r(1))
    moreover have "length (rev r) = Suc n" using r(2) by simp
    ultimately show ?thesis using n r(3,4,5) by blast
  qed
qed

lemma edge_manhattan: "v \<in> set (neighbors u) \<Longrightarrow> manhattan s v \<le> manhattan s u + 1"
  by (auto simp: neighbors_iff manhattan_def)

lemma reach_manhattan: "reach lay start n v \<Longrightarrow> manhattan start v \<le> int n"
proof (induction rule: reach.induct)
  case reach_0
  show ?case by (simp add: manhattan_def)
next
  case (reach_Suc n u v)
  from reach_Suc.hyps(2) have "manhattan start v \<le> manhattan start u + 1"
    by (simp add: edge_def edge_manhattan)
  with reach_Suc.IH show ?case by simp
qed

lemma closer:
  assumes m: "manhattan start goal = int (Suc n)"
    and s: "within_grid (fst start) (snd start)" and g: "within_grid (fst goal) (snd goal)"
  shows "\<exists>u. within_grid (fst u) (snd u) \<and> manhattan start u = int n
           \<and> goal \<in> set (neighbors u)"
proof -
  consider "fst start < fst goal" | "fst goal < fst start"
    | "fst start = fst goal" "snd start < snd goal"
    | "fst start = fst goal" "snd goal < snd start"
    | "fst start = fst goal" "snd start = snd goal" by linarith
  then show ?thesis
  proof cases
    case 1
    let ?u = "(fst goal - 1, snd goal)"
    have "within_grid (fst ?u) (snd ?u) \<and> manhattan start ?u = int n \<and> goal \<in> set (neighbors ?u)"
      using 1 m s g unfolding neighbors_iff by (auto simp: manhattan_def within_grid_def)
    then show ?thesis by blast
  next
    case 2
    let ?u = "(fst goal + 1, snd goal)"
    have "within_grid (fst ?u) (snd ?u) \<and> manhattan start ?u = int n \<and> goal \<in> set (neighbors ?u)"
      using 2 m s g unfolding neighbors_iff by (auto simp: manhattan_def within_grid_def)
    then show ?thesis by blast
  next
    case 3
    let ?u = "(fst goal, snd goal - 1)"
    have "within_grid (fst ?u) (snd ?u) \<and> manhattan start ?u = int n \<and> goal \<in> set (neighbors ?u)"
      using 3 m s g unfolding neighbors_iff by (auto simp: manhattan_def within_grid_def)
    then show ?thesis by blast
  next
    case 4
    let ?u = "(fst goal, snd goal + 1)"
    have "within_grid (fst ?u) (snd ?u) \<and> manhattan start ?u = int n \<and> goal \<in> set (neighbors ?u)"
      using 4 m s g unfolding neighbors_iff by (auto simp: manhattan_def within_grid_def)
    then show ?thesis by blast
  next
    case 5
    with m show ?thesis by (simp add: manhattan_def)
  qed
qed

lemma no_blocks_reach:
  assumes nb: "\<forall>e \<in> set lay. snd e \<noteq> CELL_BLOCK"
    and s: "within_grid (fst start) (snd start)"
  shows "within_grid (fst goal) (snd goal) \<Longrightarrow> manhattan start goal = int n
           \<Longrightarrow> reach lay start n goal"
proof (induction n arbitrary: goal)
  case 0
  then have "goal = start" by (auto simp: manhattan_def prod_eq_iff)
  then show ?case by (simp add: reach_0)
next
  case (Suc n)
  from closer [OF Suc.prems(2) s Suc.prems(1)] obtain u where
    u: "within_grid (fst u) (snd u)" "manhattan start u = int n" "goal \<in> set (neighbors u)"
    by blast
  have "reach lay start n u" using u(1,2) by (rule Suc.IH)
  moreover have "edge lay u goal"
  proof -
    have "map_of lay goal \<noteq> Some CELL_BLOCK"
    proof
      assume "map_of lay goal = Some CELL_BLOCK"
      then have "(goal, CELL_BLOCK) \<in> set lay" by (rule map_of_SomeD)
      with nb show False by auto
    qed
    with u(3) show ?thesis by (simp add: edge_def)
  qed
  ultimately show ?case by (rule reach_Suc)
qed

lemma visit_keeps: "p nb \<noteq> None \<Longrightarrow> visit lay cur nb (q, p) = (q, p)"
  by (auto simp: visit_def)

lemma bfs_loop_keeps:
  "bfs_inv lay start q prev \<Longrightarrow> prev v \<noteq> None \<Longrightarrow> bfs_loop lay goal q prev v = prev v"
  using bfs_loop_correct [of lay start q prev goal] unfolding bfs_post_def by blast


subsection \<open>What \<open>compute_route\<close> returns\<close>


definition srv_detour :: Server where
  "srv_detour =
     Server_init \<lparr>layout = [((1, 0), CELL_BLOCK)], queues = Map.empty,
                  incidents = Map.empty, generators = []\<rparr> []"


lemma manhattan_dist:
  assumes r: "reach lay start (nat (manhattan start goal)) goal"
    and d: "dist_is lay start goal n"
  shows "int n = manhattan start goal"
proof -
  have nn: "0 \<le> manhattan start goal" by (simp add: manhattan_def)
  from d have "reach lay start n goal" by (simp add: dist_is_def)
  then have 1: "manhattan start goal \<le> int n" by (rule reach_manhattan)
  have "\<not> nat (manhattan start goal) < n"
  proof
    assume "nat (manhattan start goal) < n"
    with d have "\<not> reach lay start (nat (manhattan start goal)) goal"
      unfolding dist_is_def by blast
    with r show False by simp
  qed
  with 1 nn show ?thesis by linarith
qed

text \<open>
  Claim C4. "No Blocked cells separate start from goal" is read as: some route of
  Manhattan length leads from \<open>start\<close> to \<open>goal\<close> through cells that are not Blocked, which
  is the case in particular when both are inside the grid and the layout has no Blocked
  cell at all. Then \<open>compute_route\<close> returns a route from \<open>start\<close> to \<open>goal\<close> whose number of
  moves is the Manhattan distance, that is with one position more than the distance. On
  the 5 by 5 layout without blocks the route from (0,0) to (4,4) has 9 positions, 8 moves.
\<close>

theorem compute_route_manhattan:
  fixes srv :: Server
  assumes "(\<exists>p. is_route (layout (grid srv)) p \<and> hd p = start \<and> last p = goal
              \<and> int (length p) = manhattan start goal + 1)
         \<or> (within_grid (fst start) (snd start) \<and> within_grid (fst goal) (snd goal)
              \<and> (\<forall>e \<in> set (layout (grid srv)). snd e \<noteq> CELL_BLOCK))"
  shows "\<exists>path. compute_route srv start goal = Some (Inr path)
           \<and> int (length path) = manhattan start goal + 1
           \<and> is_route (layout (grid srv)) path \<and> hd path = start \<and> last path = goal"
proof -
  let ?lay = "layout (grid srv)"
  have nn: "0 \<le> manhattan start goal" by (simp add: manhattan_def)
  have r: "reach ?lay start (nat (manhattan start goal)) goal"
    using assms
  proof (elim disjE exE conjE)
    fix p
    assume p: "is_route ?lay p" "hd p = start" "last p = goal"
      "int (length p) = manhattan start goal + 1"
    from p(4) have "length p - 1 = nat (manhattan start goal)" by simp
    with route_reach [OF p(1)] p(2,3) show ?thesis by simp
  next
    assume s: "within_grid (fst start) (snd start)" and g: "within_grid (fst goal) (snd goal)"
      and nb: "\<forall>e \<in> set ?lay. snd e \<noteq> CELL_BLOCK"
    have "manhattan start goal = int (nat (manhattan start goal))" using nn by simp
    with nb s g show ?thesis by (rule no_blocks_reach)
  qed
  from compute_route_cases [of srv start goal] r
  obtain n path where np: "dist_is ?lay start goal n"
    "compute_route srv start goal = Some (Inr path)" "length path = Suc n"
    "is_route ?lay path" "hd path = start" "last path = goal"
    by blast
  from r np(1) have "int n = manhattan start goal" by (rule manhattan_dist)
  with np(3) have "int (length path) = manhattan start goal + 1" by simp
  with np(2,4,5,6) show ?thesis by blast
qed

theorem compute_route_manhattan_witness:
  "compute_route srv5 (0, 0) (4, 4)
     = Some (Inr [(0, 0), (1, 0), (2, 0), (3, 0), (4, 0), (4, 1), (4, 2), (4, 3), (4, 4)])
   \<and> manhattan (0, 0) (4, 4) = 8
   \<and> length [(0 :: int, 0 :: int), (1, 0), (2, 0), (3, 0), (4, 0), (4, 1), (4, 2), (4, 3), (4, 4)] = 9"
proof -
  have nb: "\<forall>e \<in> set (layout (grid srv5)). snd e \<noteq> CELL_BLOCK"
    by code_simp
  have w: "within_grid (fst (0, 0)) (snd (0, 0))" "within_grid (fst (4, 4)) (snd (4, 4))"
    by (simp_all add: within_grid_def GRID_W_def GRID_H_def)
  have c: "compute_route srv5 (0, 0) (4, 4)
     = Some (Inr [(0, 0), (1, 0), (2, 0), (3, 0), (4, 0), (4, 1), (4, 2), (4, 3), (4, 4)])"
    by code_simp
  from w nb have h: "(\<exists>p. is_route (layout (grid srv5)) p \<and> hd p = (0, 0) \<and> last p = (4, 4)
              \<and> int (length p) = manhattan (0, 0) (4, 4) + 1)
         \<or> (within_grid (fst (0, 0)) (snd (0, 0)) \<and> within_grid (fst (4, 4)) (snd (4, 4))
              \<and> (\<forall>e \<in> set (layout (grid srv5)). snd e \<noteq> CELL_BLOCK))"
    by blast
  from compute_route_manhattan [OF h] c show ?thesis
    by (simp add: manhattan_def)
qed





section \<open>Ambulance agent\<close>

text \<open>
  The agent holds references to the grid state and to the server; its one caller passes
  the grid state the server itself uses, so the model threads the server record, which
  contains the grid and the signals, through \<open>step\<close>. A \<open>draws\<close> record holds the
  values that one call of \<open>step\<close> may take from \<open>random.random()\<close>, \<open>random.uniform(0, 0.5)\<close>
  and \<open>time.time()\<close>. \<open>replan\<close>, \<open>request_preemption\<close> and \<open>move\<close> are the three
  parts of \<open>step\<close> in the order of the source: the occasional re-planning, the request
  for preemption, and the movement decision; \<open>wait\<close> is the pair of increments that the
  three blocked branches share. The counters are Python floats; addition of floats is
  monotone, as is addition of reals.
\<close>

datatype log_entry = Preempt_request real Decision | Moved real pos

record AmbulanceAgent =
  pos :: "int \<times> int"
  start :: "int \<times> int"
  goal :: "int \<times> int"
  path :: "(int \<times> int) list"
  curr_index :: nat
  travel_time :: real
  blocking_time :: real
  speed :: real
  severity :: int
  completed :: bool
  logs :: "log_entry list"

record draws =
  r_replan :: real
  u_eta :: real
  r_move :: real
  t_preempt :: real
  t_request :: real
  t_moved :: real

definition predict_eta :: "Server \<Rightarrow> (int \<times> int) list \<Rightarrow> int \<times> int \<Rightarrow> real \<Rightarrow> real" where
  "predict_eta srv pth current_pos u =
     (let eta = fold (\<lambda>p eta.
                   let spd = estimated_speed_at (grid srv) p;
                       step_time = 1 / max 0.5 (spd / 12) * 3
                   in eta + step_time) (butlast pth) 0
      in eta + (AI_DECISION_LATENCY + u))"

definition AmbulanceAgent_init ::
    "int \<times> int \<Rightarrow> int \<times> int \<Rightarrow> Server \<Rightarrow> (error + AmbulanceAgent) option" where
  "AmbulanceAgent_init st gl srv =
     map_option (map_sum id (\<lambda>p.
         \<lparr>pos = st, start = st, goal = gl, path = p, curr_index = 0, travel_time = 0,
          blocking_time = 0, speed = 1, severity = 1, completed = False, logs = []\<rparr>))
       (compute_route srv st gl)"

definition replan :: "AmbulanceAgent \<Rightarrow> Server \<Rightarrow> draws \<Rightarrow> (error + AmbulanceAgent) option" where
  "replan a srv d =
     (if r_replan d < 0.02
      then map_option (map_sum id (\<lambda>p. a\<lparr>path := p\<rparr>)) (compute_route srv (pos a) (goal a))
      else Some (Inr a))"

definition request_preemption ::
    "AmbulanceAgent \<Rightarrow> Server \<Rightarrow> draws \<Rightarrow> error + AmbulanceAgent \<times> Server" where
  "request_preemption a srv d =
     (if int (curr_index a) < int (length (path a)) - 1 then
        let lookahead = take 3 (drop (curr_index a) (path a));
            eta = predict_eta srv lookahead (pos a) (u_eta d)
        in if eta < PREDICTION_HORIZON
           then (case issue_preemption srv (pos a) (path a) (severity a) (t_preempt d) of
                   Inl e \<Rightarrow> Inl e
                 | Inr (decision, srv') \<Rightarrow>
                     Inr (a\<lparr>logs := logs a @ [Preempt_request (t_request d) decision]\<rparr>, srv'))
           else Inr (a, srv)
      else Inr (a, srv))"

definition wait :: "AmbulanceAgent \<Rightarrow> real \<Rightarrow> AmbulanceAgent" where
  "wait a dt = a\<lparr>blocking_time := blocking_time a + dt, travel_time := travel_time a + dt\<rparr>"

definition move :: "AmbulanceAgent \<Rightarrow> Server \<Rightarrow> real \<Rightarrow> draws \<Rightarrow> AmbulanceAgent \<times> Server" where
  "move a srv dt d =
     (let next_index = curr_index a + 1 in
        if next_index \<ge> length (path a) then (a\<lparr>completed := True\<rparr>, srv)
        else
          let next_pos = path a ! next_index in
            if map_of (layout (grid srv)) next_pos = Some CELL_BLOCK then (wait a dt, srv)
            else if (case map_of (signals srv) next_pos of
                       None \<Rightarrow> False | Some sg \<Rightarrow> state sg = RED)
            then (wait a dt, srv)
            else
              let local_speed = estimated_speed_at (grid srv) (pos a);
                  move_prob = min 1 (local_speed / 12)
              in if r_move d < move_prob then
                   let (g', drained) = drain_queue (grid srv) (pos a) 3
                   in (a\<lparr>pos := next_pos, curr_index := next_index,
                         travel_time := travel_time a + dt,
                         logs := logs a @ [Moved (t_moved d) next_pos]\<rparr>,
                       srv\<lparr>grid := g'\<rparr>)
                 else (wait a dt, srv))"

definition step ::
    "AmbulanceAgent \<Rightarrow> Server \<Rightarrow> real \<Rightarrow> draws \<Rightarrow> (error + AmbulanceAgent \<times> Server) option" where
  "step a srv dt d =
     (if completed a then Some (Inr (a, srv))
      else if pos a = goal a then Some (Inr (a\<lparr>completed := True\<rparr>, srv))
      else
        case replan a srv d of
          None \<Rightarrow> None
        | Some (Inl e) \<Rightarrow> Some (Inl e)
        | Some (Inr a1) \<Rightarrow>
            (case request_preemption a1 srv d of
               Inl e \<Rightarrow> Some (Inl e)
             | Inr (a2, srv2) \<Rightarrow> Some (Inr (move a2 srv2 dt d))))"

subsection \<open>\<open>step\<close> always returns\<close>

lemma compute_route_total: "\<exists>p. compute_route srv st gl = Some (Inr p)"
  using compute_route_cases [of srv st gl] by blast



lemma replan_total:
  "\<exists>p. replan a srv d = Some (Inr (a\<lparr>path := p\<rparr>))
     \<and> (\<not> r_replan d < 0.02 \<longrightarrow> p = path a)
     \<and> (r_replan d < 0.02 \<longrightarrow> compute_route srv (pos a) (goal a) = Some (Inr p))"
proof (cases "r_replan d < 0.02")
  case True
  from compute_route_total obtain p where p: "compute_route srv (pos a) (goal a) = Some (Inr p)"
    by blast
  with True have "replan a srv d = Some (Inr (a\<lparr>path := p\<rparr>))" by (simp add: replan_def)
  with True p show ?thesis by blast
next
  case False
  then have "replan a srv d = Some (Inr (a\<lparr>path := path a\<rparr>))" by (simp add: replan_def)
  with False show ?thesis by blast
qed

lemma issue_preemption_total:
  "corr \<noteq> [] \<Longrightarrow> \<exists>dec srv'. issue_preemption srv p corr sev ts = Inr (dec, srv')"
  by (simp add: issue_preemption_def Let_def split: prod.splits)

lemma request_preemption_total:
  "\<exists>l srv2. request_preemption a srv d = Inr (a\<lparr>logs := l\<rparr>, srv2)
     \<and> (length (path a) \<le> curr_index a + 1 \<longrightarrow> l = logs a \<and> srv2 = srv)"
proof (cases "int (curr_index a) < int (length (path a)) - 1
    \<and> predict_eta srv (take 3 (drop (curr_index a) (path a))) (pos a) (u_eta d)
        < PREDICTION_HORIZON")
  case True
  then have ne: "path a \<noteq> []" and lt: "\<not> length (path a) \<le> curr_index a + 1" by auto
  from issue_preemption_total [OF ne] obtain dec srv' where
    "issue_preemption srv (pos a) (path a) (severity a) (t_preempt d) = Inr (dec, srv')"
    by blast
  with True have "request_preemption a srv d
      = Inr (a\<lparr>logs := logs a @ [Preempt_request (t_request d) dec]\<rparr>, srv')"
    by (simp add: request_preemption_def Let_def)
  with lt show ?thesis by blast
next
  case False
  then have "request_preemption a srv d = Inr (a\<lparr>logs := logs a\<rparr>, srv)"
    by (auto simp: request_preemption_def Let_def)
  then show ?thesis by blast
qed

lemma step_travelling:
  assumes "\<not> completed a" "pos a \<noteq> goal a"
  shows "\<exists>p l srv2. step a srv dt d = Some (Inr (move (a\<lparr>path := p, logs := l\<rparr>) srv2 dt d))
     \<and> (\<not> r_replan d < 0.02 \<longrightarrow> p = path a)
     \<and> (r_replan d < 0.02 \<longrightarrow> compute_route srv (pos a) (goal a) = Some (Inr p))
     \<and> (length p \<le> curr_index a + 1 \<longrightarrow> l = logs a \<and> srv2 = srv)"
proof -
  from replan_total [of a srv d] obtain p where
    p: "replan a srv d = Some (Inr (a\<lparr>path := p\<rparr>))"
      "\<not> r_replan d < 0.02 \<longrightarrow> p = path a"
      "r_replan d < 0.02 \<longrightarrow> compute_route srv (pos a) (goal a) = Some (Inr p)"
    by blast
  from request_preemption_total [of "a\<lparr>path := p\<rparr>" srv d] obtain l srv2 where
    l: "request_preemption (a\<lparr>path := p\<rparr>) srv d = Inr (a\<lparr>path := p, logs := l\<rparr>, srv2)"
      "length p \<le> curr_index a + 1 \<longrightarrow> l = logs a \<and> srv2 = srv"
    by auto
  have "step a srv dt d = Some (Inr (move (a\<lparr>path := p, logs := l\<rparr>) srv2 dt d))"
    using assms by (simp add: step_def p(1) l(1))
  with p(2,3) l(2) show ?thesis by blast
qed

lemma move_cases:
  "move a srv dt d = (a\<lparr>completed := True\<rparr>, srv) \<and> length (path a) \<le> curr_index a + 1
   \<or> move a srv dt d = (wait a dt, srv) \<and> curr_index a + 1 < length (path a)
   \<or> (\<exists>g'. move a srv dt d =
         (a\<lparr>pos := path a ! (curr_index a + 1), curr_index := curr_index a + 1,
            travel_time := travel_time a + dt,
            logs := logs a @ [Moved (t_moved d) (path a ! (curr_index a + 1))]\<rparr>,
          srv\<lparr>grid := g'\<rparr>)
       \<and> curr_index a + 1 < length (path a))"
  by (auto simp: move_def Let_def split: prod.splits)


text \<open>Agents and draws for the concrete runs.\<close>

definition amb_detour :: AmbulanceAgent where
  "amb_detour =
     \<lparr>pos = (0, 0), start = (0, 0), goal = (2, 0),
      path = [(0, 0), (0, 1), (1, 1), (2, 1), (2, 0)],
      curr_index = 0, travel_time = 0, blocking_time = 0, speed = 1, severity = 1,
      completed = False, logs = []\<rparr>"


definition draws_move :: draws where
  "draws_move = \<lparr>r_replan = 0.5, u_eta = 0.1, r_move = 0.3, t_preempt = 10, t_request = 10, t_moved = 10\<rparr>"

definition draws_stay :: draws where
  "draws_stay = \<lparr>r_replan = 0.5, u_eta = 0.1, r_move = 1, t_preempt = 10, t_request = 10, t_moved = 10\<rparr>"




text \<open>
  Claim C10. A new agent has \<open>blocking_time = travel_time = 0\<close>. For a time step
  \<open>dt \<ge> 0\<close> (the caller passes the simulation speed, between 0.2 and 3.0), \<open>step\<close>
  keeps \<open>blocking_time \<le> travel_time\<close>, and it does one of three things: it leaves both
  counters, the index and the position as they are; it adds \<open>dt\<close> to both counters and
  leaves the index and the position; or it moves to the next position of the path and adds
  \<open>dt\<close> to \<open>travel_time\<close> alone.
\<close>

theorem blocking_time_le_travel_time:
  fixes a :: AmbulanceAgent and srv :: Server
  assumes "0 \<le> dt" and "blocking_time a \<le> travel_time a"
  shows "(\<exists>a0. AmbulanceAgent_init st gl srv0 = Some (Inr a0)
            \<and> blocking_time a0 = 0 \<and> travel_time a0 = 0)
    \<and> (\<exists>a' srv'. step a srv dt d = Some (Inr (a', srv'))
         \<and> blocking_time a' \<le> travel_time a'
         \<and> (blocking_time a' = blocking_time a \<and> travel_time a' = travel_time a
              \<and> curr_index a' = curr_index a \<and> pos a' = pos a
            \<or> blocking_time a' = blocking_time a + dt \<and> travel_time a' = travel_time a + dt
              \<and> curr_index a' = curr_index a \<and> pos a' = pos a
            \<or> blocking_time a' = blocking_time a \<and> travel_time a' = travel_time a + dt
              \<and> curr_index a' = curr_index a + 1 \<and> pos a' = path a' ! curr_index a'))"
proof -
  have init: "\<exists>a0. AmbulanceAgent_init st gl srv0 = Some (Inr a0)
            \<and> blocking_time a0 = 0 \<and> travel_time a0 = 0"
  proof -
    from compute_route_total obtain p where "compute_route srv0 st gl = Some (Inr p)" by blast
    then show ?thesis by (simp add: AmbulanceAgent_init_def)
  qed
  have "\<exists>a' srv'. step a srv dt d = Some (Inr (a', srv'))
         \<and> blocking_time a' \<le> travel_time a'
         \<and> (blocking_time a' = blocking_time a \<and> travel_time a' = travel_time a
              \<and> curr_index a' = curr_index a \<and> pos a' = pos a
            \<or> blocking_time a' = blocking_time a + dt \<and> travel_time a' = travel_time a + dt
              \<and> curr_index a' = curr_index a \<and> pos a' = pos a
            \<or> blocking_time a' = blocking_time a \<and> travel_time a' = travel_time a + dt
              \<and> curr_index a' = curr_index a + 1 \<and> pos a' = path a' ! curr_index a')"
  proof (cases "completed a \<or> pos a = goal a")
    case True
    then have "step a srv dt d = Some (Inr (a, srv))
        \<or> step a srv dt d = Some (Inr (a\<lparr>completed := True\<rparr>, srv))"
      by (auto simp: step_def)
    with assms(2) show ?thesis by auto
  next
    case False
    then have nc: "\<not> completed a" and ng: "pos a \<noteq> goal a" by simp_all
    from step_travelling [OF nc ng, of srv dt d] obtain p l srv2 where
      st: "step a srv dt d = Some (Inr (move (a\<lparr>path := p, logs := l\<rparr>) srv2 dt d))"
      by blast
    let ?a2 = "a\<lparr>path := p, logs := l\<rparr>"
    obtain a' srv' where m: "move ?a2 srv2 dt d = (a', srv')" by (cases "move ?a2 srv2 dt d")
    from move_cases [of ?a2 srv2 dt d] m assms
    have "blocking_time a' \<le> travel_time a'
         \<and> (blocking_time a' = blocking_time a \<and> travel_time a' = travel_time a
              \<and> curr_index a' = curr_index a \<and> pos a' = pos a
            \<or> blocking_time a' = blocking_time a + dt \<and> travel_time a' = travel_time a + dt
              \<and> curr_index a' = curr_index a \<and> pos a' = pos a
            \<or> blocking_time a' = blocking_time a \<and> travel_time a' = travel_time a + dt
              \<and> curr_index a' = curr_index a + 1 \<and> pos a' = path a' ! curr_index a')"
      by (auto simp: wait_def)
    with st m show ?thesis by simp
  qed
  with init show ?thesis by blast
qed

theorem blocking_time_le_travel_time_witness:
  "(case step amb_detour srv_detour 0.2 draws_move of
      Some (Inr (a', srv')) \<Rightarrow>
        blocking_time a' = 0 \<and> travel_time a' = 0.2 \<and> pos a' = (0, 1) \<and> curr_index a' = 1
    | _ \<Rightarrow> False)
   \<and> (case step amb_detour srv_detour 0.2 draws_stay of
      Some (Inr (a', srv')) \<Rightarrow>
        blocking_time a' = 0.2 \<and> travel_time a' = 0.2 \<and> pos a' = (0, 0) \<and> curr_index a' = 0
    | _ \<Rightarrow> False)"
proof -
  have h: "(0::real) \<le> 0.2" "blocking_time amb_detour \<le> travel_time amb_detour"
    by (simp_all add: amb_detour_def)
  have 1: "(case step amb_detour srv_detour 0.2 draws_move of
      Some (Inr (a', srv')) \<Rightarrow>
        blocking_time a' = 0 \<and> travel_time a' = 0.2 \<and> pos a' = (0, 1) \<and> curr_index a' = 1
    | _ \<Rightarrow> False)"
    by (simp add: step_def replan_def request_preemption_def move_def wait_def Let_def
        amb_detour_def draws_move_def srv_detour_def Server_init_def predict_eta_def
        estimated_speed_at_def dict_get_def AI_DECISION_LATENCY_def PREDICTION_HORIZON_def
        issue_preemption_def drain_queue_def)
  have 2: "(case step amb_detour srv_detour 0.2 draws_stay of
      Some (Inr (a', srv')) \<Rightarrow>
        blocking_time a' = 0.2 \<and> travel_time a' = 0.2 \<and> pos a' = (0, 0) \<and> curr_index a' = 0
    | _ \<Rightarrow> False)"
    by (simp add: step_def replan_def request_preemption_def move_def wait_def Let_def
        amb_detour_def draws_stay_def srv_detour_def Server_init_def predict_eta_def
        estimated_speed_at_def dict_get_def AI_DECISION_LATENCY_def PREDICTION_HORIZON_def
        issue_preemption_def drain_queue_def)
  from blocking_time_le_travel_time [OF h, of "(0, 0)" "(2, 0)" srv_detour srv_detour draws_move]
    1 2
  show ?thesis by blast
qed

end
